theory Spec2Isabelle
  imports Main "HOL-Library.AList" "HOL-Library.Char_ord" "HOL-Library.List_Lexorder" "HOL-Library.Product_Lexorder"
begin

section \<open>Python text primitives\<close>

text \<open>
  Python strings are modelled as \<^typ>\<open>string\<close>; a \<^typ>\<open>char\<close> stands for the code point of
  the same number (0 to 255).  The predicates below are Python's on that range.
\<close>

definition isspace :: "char \<Rightarrow> bool" where
  \<comment> \<open>\<open>str.isspace\<close> on one character; also the set stripped by \<open>str.strip()\<close> and matched by \<open>\s\<close>.\<close>
  "isspace c = ((of_char c :: nat) \<in> set [9, 10, 11, 12, 13, 28, 29, 30, 31, 32, 133, 160])"

definition strip :: "string \<Rightarrow> string" where
  "strip s = rev (dropWhile isspace (rev (dropWhile isspace s)))"

definition startswith :: "string \<Rightarrow> string \<Rightarrow> bool" where
  "startswith s p = (take (length p) s = p)"

fun contains :: "string \<Rightarrow> string \<Rightarrow> bool" where
  \<comment> \<open>\<open>contains s x\<close> is Python's \<open>x in s\<close>.\<close>
  "contains [] x = (x = [])"
| "contains (c # cs) x = (startswith (c # cs) x \<or> contains cs x)"

fun split_on :: "char \<Rightarrow> string \<Rightarrow> string list" where
  \<comment> \<open>\<open>s.split(sep)\<close> for a one-character separator.\<close>
  "split_on sep [] = [[]]"
| "split_on sep (c # cs) =
     (if c = sep then [] # split_on sep cs
      else (case split_on sep cs of [] \<Rightarrow> [[c]] | w # ws \<Rightarrow> (c # w) # ws))"

definition split_first :: "char \<Rightarrow> string \<Rightarrow> string list" where
  \<comment> \<open>\<open>s.split(sep, 1)\<close>.\<close>
  "split_first sep s =
     (if sep \<in> set s
      then [takeWhile (\<lambda>c. c \<noteq> sep) s, tl (dropWhile (\<lambda>c. c \<noteq> sep) s)]
      else [s])"

fun split_ws_aux :: "string \<Rightarrow> string \<Rightarrow> string list" where
  "split_ws_aux w [] = (if w = [] then [] else [rev w])"
| "split_ws_aux w (c # cs) =
     (if isspace c then (if w = [] then split_ws_aux [] cs else rev w # split_ws_aux [] cs)
      else split_ws_aux (c # w) cs)"

definition split_ws :: "string \<Rightarrow> string list" where
  \<comment> \<open>\<open>s.split()\<close>: the maximal runs of non-whitespace.\<close>
  "split_ws s = split_ws_aux [] s"

definition isdecimal :: "char \<Rightarrow> bool" where
  "isdecimal c = (48 \<le> (of_char c :: nat) \<and> (of_char c :: nat) \<le> 57)"

definition digit_val :: "char \<Rightarrow> nat" where
  "digit_val c = of_char c - 48"

definition isdigit :: "string \<Rightarrow> bool" where
  \<comment> \<open>\<open>str.isdigit()\<close>: non-empty, and every character a digit; the superscripts
      \<open>U+00B2\<close>, \<open>U+00B3\<close> and \<open>U+00B9\<close> are digits for Python, though \<open>int\<close> refuses them.\<close>
  "isdigit s = (s \<noteq> [] \<and> list_all (\<lambda>c. isdecimal c \<or> (of_char c :: nat) \<in> set [178, 179, 185]) s)"

datatype exn =
    TimeoutExpired | SubprocessError | FileNotFoundError
  | PermissionError | UnicodeDecodeError
  | ValueError | IndexError

fun int_digits :: "nat \<Rightarrow> string \<Rightarrow> nat option" where
  "int_digits acc [] = Some acc"
| "int_digits acc (c # cs) =
     (if isdecimal c then int_digits (10 * acc + digit_val c) cs
      else if c = CHR ''_'' then
        (case cs of
           [] \<Rightarrow> None
         | d # ds \<Rightarrow> if isdecimal d then int_digits (10 * acc + digit_val d) ds else None)
      else None)"

definition py_int :: "string \<Rightarrow> exn + int" where
  \<comment> \<open>\<open>int(s)\<close>: surrounding whitespace, an optional sign, decimal digits with single
      underscores between them; anything else raises \<open>ValueError\<close>.\<close>
  "py_int s =
     (let t = strip s;
          neg = startswith t ''-'';
          body = (if startswith t ''-'' \<or> startswith t ''+'' then tl t else t)
      in case body of
           [] \<Rightarrow> Inl ValueError
         | d # ds \<Rightarrow>
             if isdecimal d then
               (case int_digits (digit_val d) ds of
                  None \<Rightarrow> Inl ValueError
                | Some n \<Rightarrow> Inr (if neg then - int n else int n))
             else Inl ValueError)"

definition round_div :: "int \<Rightarrow> int \<Rightarrow> int" where
  \<comment> \<open>\<open>round(x / d)\<close> for a positive power of two \<open>d\<close>: the quotient rounded to the nearest
      integer, a tie going to the even one (exact as long as \<open>x\<close> fits a double's mantissa).\<close>
  "round_div x d =
     (let q = x div d; r = x mod d
      in if 2 * r < d then q
         else if 2 * r > d then q + 1
         else if even q then q else q + 1)"

section \<open>scanner.py: the command executor\<close>

record completed_process =
  returncode :: int
  stdout :: string

datatype cmd = Argv "string list" | Shell string

type_synonym subprocess = "cmd \<Rightarrow> exn + completed_process"

definition run_command :: "subprocess \<Rightarrow> cmd \<Rightarrow> exn + string" where
  \<comment> \<open>The first argument is what \<open>subprocess.run(cmd, shell=shell, capture_output=True,
      text=True, timeout=10)\<close> does: it raises or returns.  The \<open>except\<close> clause names three classes.\<close>
  "run_command run c =
     (case run c of
        Inr result \<Rightarrow> Inr (strip (stdout result))
      | Inl e \<Rightarrow>
          if e = TimeoutExpired \<or> e = SubprocessError \<or> e = FileNotFoundError
          then Inr ''''
          else Inl e)"

section \<open>scanner.py: raising and catching\<close>

definition bind_exn :: "exn + 'a \<Rightarrow> ('a \<Rightarrow> exn + 'b) \<Rightarrow> exn + 'b" where
  "bind_exn m f = (case m of Inl e \<Rightarrow> Inl e | Inr x \<Rightarrow> f x)"

definition item :: "'a list \<Rightarrow> nat \<Rightarrow> exn + 'a" where
  \<comment> \<open>\<open>xs[i]\<close> for a non-negative index.\<close>
  "item xs i = (if i < length xs then Inr (xs ! i) else Inl IndexError)"

fun for_each :: "('s \<Rightarrow> 'a \<Rightarrow> exn + 's) \<Rightarrow> 's \<Rightarrow> 'a list \<Rightarrow> exn + 's" where
  \<comment> \<open>A \<open>for\<close> loop whose body may raise: the first exception leaves the loop.\<close>
  "for_each body st [] = Inr st"
| "for_each body st (x # xs) = bind_exn (body st x) (\<lambda>st'. for_each body st' xs)"

section \<open>scanner.py: the CPU and memory extractors\<close>

record cpu_info =
  cpu_model :: string
  cores :: int
  threads :: int

record cpu_scan =
  info :: cpu_info
  cores_per :: "int option"
  sockets :: "int option"

definition after_colon_field :: "string \<Rightarrow> exn + string" where
  \<comment> \<open>\<open>line.split(":", 1)[1].strip()\<close>\<close>
  "after_colon_field line = bind_exn (item (split_first CHR '':'' line) 1) (\<lambda>v. Inr (strip v))"

definition cpu_line_body :: "cpu_scan \<Rightarrow> string \<Rightarrow> exn + cpu_scan" where
  "cpu_line_body st line =
     (if startswith line ''Model name:'' then
        bind_exn (after_colon_field line) (\<lambda>v. Inr (st\<lparr>info := (info st)\<lparr>cpu_model := v\<rparr>\<rparr>))
      else if startswith line ''CPU(s):'' then
        bind_exn (after_colon_field line) (\<lambda>v.
        bind_exn (py_int v) (\<lambda>n. Inr (st\<lparr>info := (info st)\<lparr>threads := n\<rparr>\<rparr>)))
      else if startswith line ''Core(s) per socket:'' then
        bind_exn (after_colon_field line) (\<lambda>v.
        bind_exn (py_int v) (\<lambda>n. Inr (st\<lparr>cores_per := Some n\<rparr>)))
      else if startswith line ''Socket(s):'' then
        bind_exn (after_colon_field line) (\<lambda>v.
        bind_exn (py_int v) (\<lambda>n. Inr (st\<lparr>sockets := Some n\<rparr>)))
      else Inr st)"

definition cpu_line :: "cpu_scan \<Rightarrow> string \<Rightarrow> exn + cpu_scan" where
  \<comment> \<open>One turn of the Linux loop: \<open>try: ... except (ValueError, IndexError): pass\<close>.\<close>
  "cpu_line st line =
     (case cpu_line_body st line of
        Inr st' \<Rightarrow> Inr st'
      | Inl e \<Rightarrow> if e = ValueError \<or> e = IndexError then Inr st else Inl e)"

definition truthy :: "int option \<Rightarrow> bool" where
  "truthy v = (case v of None \<Rightarrow> False | Some n \<Rightarrow> n \<noteq> 0)"

definition wmic_lines :: "string \<Rightarrow> string list" where
  \<comment> \<open>\<open>[l for l in wmic.split("\n") if l.strip() and not l.startswith("Node")]\<close>\<close>
  "wmic_lines wmic = filter (\<lambda>l. strip l \<noteq> [] \<and> \<not> startswith l ''Node'') (split_on CHR 0x0A wmic)"

definition int_if_digit :: "string \<Rightarrow> exn + int" where
  \<comment> \<open>\<open>int(p) if p.strip().isdigit() else 0\<close>\<close>
  "int_if_digit p = (if isdigit (strip p) then py_int p else Inr 0)"

definition scan_cpu :: "string \<Rightarrow> subprocess \<Rightarrow> exn + cpu_info" where
  "scan_cpu platform run =
     (let cpu0 = \<lparr>cpu_model = ''Unknown'', cores = 0, threads = 0\<rparr> in
      if platform = ''linux'' then
        bind_exn (run_command run (Argv [''lscpu''])) (\<lambda>lscpu.
        bind_exn (for_each cpu_line \<lparr>info = cpu0, cores_per = None, sockets = None\<rparr>
                    (split_on CHR 0x0A lscpu)) (\<lambda>st.
          Inr (if truthy (cores_per st) \<and> truthy (sockets st)
               then (info st)\<lparr>cores := the (cores_per st) * the (sockets st)\<rparr>
               else info st)))
      else if platform = ''macos'' then
        bind_exn (run_command run (Argv [''sysctl'', ''-n'', ''machdep.cpu.brand_string''])) (\<lambda>brand.
        bind_exn (run_command run (Argv [''sysctl'', ''-n'', ''hw.physicalcpu''])) (\<lambda>cores_s.
        bind_exn (run_command run (Argv [''sysctl'', ''-n'', ''hw.logicalcpu''])) (\<lambda>threads_s.
          let cpu1 = cpu0\<lparr>cpu_model := (if brand = [] then ''Unknown'' else brand)\<rparr> in
          case (if cores_s = [] then Inr cpu1
                else bind_exn (py_int cores_s) (\<lambda>n. Inr (cpu1\<lparr>cores := n\<rparr>))) of
            Inl e \<Rightarrow> if e = ValueError then Inr cpu1 else Inl e
          | Inr cpu2 \<Rightarrow>
              (case (if threads_s = [] then Inr cpu2
                     else bind_exn (py_int threads_s) (\<lambda>n. Inr (cpu2\<lparr>threads := n\<rparr>))) of
                 Inl e \<Rightarrow> if e = ValueError then Inr cpu2 else Inl e
               | Inr cpu3 \<Rightarrow> Inr cpu3))))
      else if platform = ''windows'' then
        bind_exn (run_command run
            (Shell ''wmic cpu get name,numberofcores,numberoflogicalprocessors /format:csv'')) (\<lambda>wmic.
          case wmic_lines wmic of
            [] \<Rightarrow> Inr cpu0
          | l # _ \<Rightarrow>
              let parts = split_on CHR '','' l in
              if 4 \<le> length parts then
                bind_exn (int_if_digit (parts ! 2)) (\<lambda>c.
                bind_exn (int_if_digit (parts ! 3)) (\<lambda>t.
                  Inr \<lparr>cpu_model = strip (parts ! 1), cores = c, threads = t\<rparr>))
              else Inr cpu0)
      else Inr cpu0)"

record mem_info =
  total_gb :: int

fun meminfo_lines :: "string list \<Rightarrow> exn + mem_info" where
  \<comment> \<open>The Linux loop: the first \<open>MemTotal:\<close> line decides (\<open>break\<close>); nothing is caught.\<close>
  "meminfo_lines [] = Inr \<lparr>total_gb = 0\<rparr>"
| "meminfo_lines (line # rest) =
     (if startswith line ''MemTotal:'' then
        bind_exn (item (split_ws line) 1) (\<lambda>w.
        bind_exn (py_int w) (\<lambda>kb. Inr \<lparr>total_gb = round_div kb (1024 * 1024)\<rparr>))
      else meminfo_lines rest)"

definition scan_memory :: "string \<Rightarrow> subprocess \<Rightarrow> exn + mem_info" where
  "scan_memory platform run =
     (if platform = ''linux'' then
        bind_exn (run_command run (Argv [''cat'', ''/proc/meminfo''])) (\<lambda>meminfo.
          meminfo_lines (split_on CHR 0x0A meminfo))
      else if platform = ''macos'' then
        bind_exn (run_command run (Argv [''sysctl'', ''-n'', ''hw.memsize''])) (\<lambda>mem_bytes.
          if mem_bytes = [] then Inr \<lparr>total_gb = 0\<rparr>
          else bind_exn (py_int mem_bytes) (\<lambda>b. Inr \<lparr>total_gb = round_div b (1024 * 1024 * 1024)\<rparr>))
      else if platform = ''windows'' then
        bind_exn (run_command run
            (Shell ''wmic computersystem get totalphysicalmemory /format:csv'')) (\<lambda>wmic.
          case wmic_lines wmic of
            [] \<Rightarrow> Inr \<lparr>total_gb = 0\<rparr>
          | l # _ \<Rightarrow>
              let parts = split_on CHR '','' l in
              if 2 \<le> length parts \<and> isdigit (strip (parts ! 1)) then
                bind_exn (py_int (parts ! 1)) (\<lambda>b.
                  Inr \<lparr>total_gb = round_div b (1024 * 1024 * 1024)\<rparr>)
              else Inr \<lparr>total_gb = 0\<rparr>)
      else Inr \<lparr>total_gb = 0\<rparr>)"

section \<open>scanner.py: the GPU extractor, vendor tool and bus-listing fallback\<close>

text \<open>
  A GPU record; the optional keys of the Python dictionary are options.  Of \<open>scan_gpus\<close> the
  \<open>nvidia-smi\<close> block and the Linux \<open>lspci\<close> block are embedded; the list they extend is the
  function's \<open>gpus\<close>, whatever the blocks before have put there.
\<close>

record gpu =
  vendor :: string
  index :: "int option"
  model :: string
  vram_mb :: "int option"
  pcie_bus :: "string option"
  uuid :: "string option"
  source :: "string option"

definition nvidia_line :: "gpu list \<Rightarrow> string \<Rightarrow> exn + gpu list" where
  "nvidia_line gpus line =
     (if strip line = [] then Inr gpus
      else
        let parts = map strip (split_on CHR '','' line) in
        if 5 \<le> length parts then
          bind_exn (py_int (parts ! 0)) (\<lambda>idx.
          bind_exn (if isdigit (parts ! 2) then py_int (parts ! 2) else Inr 0) (\<lambda>vram.
            Inr (gpus @ [\<lparr>vendor = ''NVIDIA'', index = Some idx, model = parts ! 1,
                          vram_mb = Some vram, pcie_bus = Some (parts ! 3),
                          uuid = Some (parts ! 4), source = None\<rparr>])))
        else Inr gpus)"

definition gpus_nvidia :: "(string \<Rightarrow> bool) \<Rightarrow> subprocess \<Rightarrow> gpu list \<Rightarrow> exn + gpu list" where
  \<comment> \<open>\<open>which name\<close> stands for the truth value of \<open>shutil.which(name)\<close>.\<close>
  "gpus_nvidia which run gpus =
     (if which ''nvidia-smi'' then
        bind_exn (run_command run
            (Argv [''nvidia-smi'', ''--query-gpu=index,name,memory.total,pci.bus_id,uuid'',
                   ''--format=csv,noheader,nounits''])) (\<lambda>output.
          for_each nvidia_line gpus (split_on CHR 0x0A output))
      else Inr gpus)"

fun lazy_group :: "string \<Rightarrow> string \<Rightarrow> string option" where
  \<comment> \<open>\<open>(.+?)\s*\[\<close>: the shortest non-empty run without a newline that whitespace and a
      bracket follow; the first argument is the run so far, reversed.\<close>
  "lazy_group acc [] = None"
| "lazy_group acc (c # cs) =
     (if c = CHR 0x0A then None
      else if startswith (dropWhile isspace cs) ''['' then Some (rev (c # acc))
      else lazy_group (c # acc) cs)"

fun first_some :: "'a option list \<Rightarrow> 'a option" where
  "first_some [] = None"
| "first_some (None # xs) = first_some xs"
| "first_some (Some x # xs) = Some x"

definition after_colon :: "string \<Rightarrow> string option" where
  \<comment> \<open>\<open>\s*\<close> is greedy: the longest run of whitespace is tried first, then shorter ones.\<close>
  "after_colon rest =
     first_some (map (\<lambda>k. lazy_group [] (drop k rest))
                     (rev [0 ..< Suc (length (takeWhile isspace rest))]))"

fun model_search :: "string \<Rightarrow> string option" where
  \<comment> \<open>Group 1 of \<open>re.search(r":\s*(.+?)\s*\[", line)\<close>, the leftmost match.\<close>
  "model_search [] = None"
| "model_search (c # cs) =
     (if c = CHR '':'' then
        (case after_colon cs of Some g \<Rightarrow> Some g | None \<Rightarrow> model_search cs)
      else model_search cs)"

definition lspci_entry :: "string \<Rightarrow> string \<Rightarrow> gpu" where
  "lspci_entry v m =
     \<lparr>vendor = v, index = None, model = m, vram_mb = None, pcie_bus = None, uuid = None,
      source = Some ''lspci''\<rparr>"

definition overlaps_amd :: "string \<Rightarrow> gpu \<Rightarrow> bool" where
  \<comment> \<open>\<open>"AMD" in g.get("vendor", "") and model in g.get("model", "")\<close>\<close>
  "overlaps_amd m g = (contains (vendor g) ''AMD'' \<and> contains (model g) m)"

definition display_line :: "string \<Rightarrow> bool" where
  \<comment> \<open>\<open>"VGA" in line or "3D controller" in line\<close>\<close>
  "display_line line = (contains line ''VGA'' \<or> contains line ''3D controller'')"

definition amd_line :: "string \<Rightarrow> bool" where
  \<comment> \<open>\<open>"AMD" in line or "ATI" in line or "Radeon" in line\<close>\<close>
  "amd_line line = (contains line ''AMD'' \<or> contains line ''ATI'' \<or> contains line ''Radeon'')"

definition model_or :: "string \<Rightarrow> string \<Rightarrow> string" where
  \<comment> \<open>\<open>match.group(1) if match else default\<close>\<close>
  "model_or dflt line = (case model_search line of Some g \<Rightarrow> g | None \<Rightarrow> dflt)"

definition lspci_line :: "gpu list \<Rightarrow> string \<Rightarrow> gpu list" where
  "lspci_line gpus line =
     (if display_line line then
        if amd_line line then
          let m = model_or ''AMD GPU'' line in
          if list_ex (overlaps_amd m) gpus then gpus
          else gpus @ [lspci_entry ''AMD'' m]
        else if contains line ''Intel'' then
          let m = model_or ''Intel GPU'' line in
          gpus @ [lspci_entry ''Intel'' m]
        else gpus
      else gpus)"

definition is_amd :: "gpu \<Rightarrow> bool" where
  "is_amd g = (vendor g = ''AMD'')"

definition gpus_lspci :: "string \<Rightarrow> subprocess \<Rightarrow> gpu list \<Rightarrow> exn + gpu list" where
  "gpus_lspci platform run gpus =
     (if platform = ''linux'' \<and> \<not> list_ex is_amd gpus then
        bind_exn (run_command run (Argv [''lspci'', ''-nn''])) (\<lambda>lspci.
          Inr (foldl lspci_line gpus (split_on CHR 0x0A lspci)))
      else Inr gpus)"

section \<open>scanner.py: the aggregator\<close>

record ('g, 's, 'n, 'k) snapshot =
  platform :: string
  hostname :: string
  cpu :: cpu_info
  memory :: mem_info
  gpus :: 'g
  storage :: 's
  network :: 'n
  ssh_keys :: 'k

definition scan_all ::
  "string \<Rightarrow> string \<Rightarrow> subprocess \<Rightarrow> exn + 'g \<Rightarrow> exn + 's \<Rightarrow> exn + 'n \<Rightarrow> exn + 'k
     \<Rightarrow> exn + ('g, 's, 'n, 'k) snapshot" where
  \<comment> \<open>The dictionary display is evaluated key by key, in order.  The last four arguments are
      what the calls \<open>self.scan_gpus()\<close>, \<open>self.scan_storage()\<close>, \<open>self.scan_network()\<close> and
      \<open>self.scan_ssh_keys()\<close> do: each raises or returns.\<close>
  "scan_all plat host run scan_gpus scan_storage scan_network scan_ssh_keys =
     bind_exn (scan_cpu plat run) (\<lambda>c.
     bind_exn (scan_memory plat run) (\<lambda>m.
     bind_exn scan_gpus (\<lambda>g.
     bind_exn scan_storage (\<lambda>s.
     bind_exn scan_network (\<lambda>n.
     bind_exn scan_ssh_keys (\<lambda>k.
       Inr \<lparr>platform = plat, hostname = host, cpu = c, memory = m, gpus = g, storage = s,
            network = n, ssh_keys = k\<rparr>))))))"

section \<open>The json module, as update\_context.py uses it\<close>

text \<open>
  A parsed document.  Python's \<open>int\<close> is unbounded; a \<open>dict\<close> keeps its keys in insertion
  order, so an object is an association list.  Numbers with a fraction or an exponent, the
  constants \<open>NaN\<close> and \<open>Infinity\<close>, and \<open>\u\<close> escapes above \<open>00ff\<close> have no value here: the
  decoder answers \<open>Unsupported\<close> for a text that holds one, and nothing is said about it.
\<close>

datatype json =
    JNull
  | JBool bool
  | JInt int
  | JStr string
  | JArr "json list"
  | JObj "(string \<times> json) list"

datatype 'a result = Ok 'a | JSONDecodeError | Unsupported

subsection \<open>Decoding: \<open>json.loads\<close>\<close>

definition json_ws :: "char \<Rightarrow> bool" where
  \<comment> \<open>The decoder's whitespace: space, tab, line feed, carriage return.\<close>
  "json_ws c = (c = CHR '' '' \<or> c = CHR 0x09 \<or> c = CHR 0x0A \<or> c = CHR 0x0D)"

definition skip_ws :: "string \<Rightarrow> string" where
  "skip_ws s = dropWhile json_ws s"

definition hexval :: "char \<Rightarrow> nat option" where
  "hexval c =
     (let n = (of_char c :: nat) in
      if 48 \<le> n \<and> n \<le> 57 then Some (n - 48)
      else if 97 \<le> n \<and> n \<le> 102 then Some (n - 87)
      else if 65 \<le> n \<and> n \<le> 70 then Some (n - 55)
      else None)"

definition hex4 :: "char \<Rightarrow> char \<Rightarrow> char \<Rightarrow> char \<Rightarrow> nat option" where
  "hex4 a b c d =
     (case (hexval a, hexval b, hexval c, hexval d) of
        (Some w, Some x, Some y, Some z) \<Rightarrow> Some (((w * 16 + x) * 16 + y) * 16 + z)
      | _ \<Rightarrow> None)"

definition unescape :: "char \<Rightarrow> char option" where
  \<comment> \<open>The decoder's table \<open>BACKSLASH\<close>.\<close>
  "unescape e =
     (if e = CHR 0x22 then Some (CHR 0x22)
      else if e = CHR 0x5C then Some (CHR 0x5C)
      else if e = CHR ''/'' then Some (CHR ''/'')
      else if e = CHR ''b'' then Some (CHR 0x08)
      else if e = CHR ''f'' then Some (CHR 0x0C)
      else if e = CHR ''n'' then Some (CHR 0x0A)
      else if e = CHR ''r'' then Some (CHR 0x0D)
      else if e = CHR ''t'' then Some (CHR 0x09)
      else None)"

fun scanstring :: "string \<Rightarrow> string \<Rightarrow> (string \<times> string) result" where
  \<comment> \<open>\<open>py_scanstring\<close> in strict mode, from just after the opening quote; the first argument
      is the content read so far, reversed.\<close>
  "scanstring acc [] = JSONDecodeError"
| "scanstring acc (c # cs) =
     (if c = CHR 0x22 then Ok (rev acc, cs)
      else if c = CHR 0x5C then
        (case cs of
           [] \<Rightarrow> JSONDecodeError
         | e # r \<Rightarrow>
             if e = CHR ''u'' then
               (case r of
                  h1 # h2 # h3 # h4 # r' \<Rightarrow>
                    (case hex4 h1 h2 h3 h4 of
                       None \<Rightarrow> JSONDecodeError
                     | Some n \<Rightarrow>
                         if n < 256 then scanstring (char_of n # acc) r' else Unsupported)
                | _ \<Rightarrow> JSONDecodeError)
             else
               (case unescape e of
                  None \<Rightarrow> JSONDecodeError
                | Some ch \<Rightarrow> scanstring (ch # acc) r))
      else if (of_char c :: nat) < 32 then JSONDecodeError
      else scanstring (c # acc) cs)"

definition match_number :: "string \<Rightarrow> (bool \<times> string \<times> string) option" where
  \<comment> \<open>The integer part of \<open>NUMBER_RE\<close>, \<open>-?(?:0|[1-9][0-9]*)\<close>: the sign, the digits, the rest.\<close>
  "match_number s =
     (let neg = startswith s ''-''; t = (if neg then tl s else s) in
      case t of
        [] \<Rightarrow> None
      | d # ds \<Rightarrow>
          if d = CHR ''0'' then Some (neg, [d], ds)
          else if isdecimal d then Some (neg, d # takeWhile isdecimal ds, dropWhile isdecimal ds)
          else None)"

definition is_frac :: "string \<Rightarrow> bool" where
  \<comment> \<open>\<open>\.[0-9]+\<close> matches here.\<close>
  "is_frac s = (case s of p # d # _ \<Rightarrow> p = CHR ''.'' \<and> isdecimal d | _ \<Rightarrow> False)"

definition is_exp :: "string \<Rightarrow> bool" where
  \<comment> \<open>\<open>[eE][-+]?[0-9]+\<close> matches here.\<close>
  "is_exp s =
     (case s of
        [] \<Rightarrow> False
      | e # r \<Rightarrow>
          (e = CHR ''e'' \<or> e = CHR ''E'') \<and>
          (case r of
             [] \<Rightarrow> False
           | x # r' \<Rightarrow>
               isdecimal x \<or>
               ((x = CHR ''+'' \<or> x = CHR ''-'') \<and> (case r' of [] \<Rightarrow> False | d # _ \<Rightarrow> isdecimal d))))"

definition digits_value :: "string \<Rightarrow> nat" where
  "digits_value ds = foldl (\<lambda>a c. 10 * a + digit_val c) 0 ds"

definition dict_of :: "(string \<times> json) list \<Rightarrow> (string \<times> json) list" where
  \<comment> \<open>\<open>dict(pairs)\<close>: a key that comes again keeps its place and takes the later value.\<close>
  "dict_of pairs = foldl (\<lambda>d (k, v). AList.update k v d) [] pairs"

function parse_value :: "string \<Rightarrow> (json \<times> string) result"
  and parse_elems :: "json list \<Rightarrow> string \<Rightarrow> (json \<times> string) result"
  and parse_members :: "(string \<times> json) list \<Rightarrow> string \<Rightarrow> (json \<times> string) result"
where
  \<comment> \<open>\<open>scan_once\<close>, the loop of \<open>JSONArray\<close> (from the start of an element) and the loop of
      \<open>JSONObject\<close> (from just after the opening quote of a key).  The two loops go on with
      what the key and the element left; that it is shorter than what they started from
      always holds (lemmas \<open>scanstring_shorter\<close> and \<open>parse_shorter\<close>), and testing it makes the
      recursion well-founded.\<close>
  "parse_value s =
     (case s of
        [] \<Rightarrow> JSONDecodeError
      | c # cs \<Rightarrow>
          if c = CHR 0x22 then
            (case scanstring [] cs of
               Ok (str, rest) \<Rightarrow> Ok (JStr str, rest)
             | JSONDecodeError \<Rightarrow> JSONDecodeError
             | Unsupported \<Rightarrow> Unsupported)
          else if c = CHR ''{'' then
            (case skip_ws cs of
               [] \<Rightarrow> JSONDecodeError
             | d # r \<Rightarrow>
                 if d = CHR ''}'' then Ok (JObj [], r)
                 else if d = CHR 0x22 then parse_members [] r
                 else JSONDecodeError)
          else if c = CHR ''['' then
            (case skip_ws cs of
               [] \<Rightarrow> JSONDecodeError
             | d # r \<Rightarrow>
                 if d = CHR '']'' then Ok (JArr [], r)
                 else parse_elems [] (d # r))
          else if startswith s ''null'' then Ok (JNull, drop 4 s)
          else if startswith s ''true'' then Ok (JBool True, drop 4 s)
          else if startswith s ''false'' then Ok (JBool False, drop 5 s)
          else
            (case match_number s of
               Some (neg, ds, rest) \<Rightarrow>
                 if is_frac rest \<or> is_exp rest then Unsupported
                 else Ok (JInt (if neg then - int (digits_value ds) else int (digits_value ds)), rest)
             | None \<Rightarrow>
                 if startswith s ''NaN'' \<or> startswith s ''Infinity'' \<or> startswith s ''-Infinity''
                 then Unsupported
                 else JSONDecodeError))"
| "parse_elems acc s =
     (case parse_value s of
        Ok (v, rest) \<Rightarrow>
          if length rest < length s then
            (case skip_ws rest of
               [] \<Rightarrow> JSONDecodeError
             | d # r \<Rightarrow>
                 if d = CHR '']'' then Ok (JArr (acc @ [v]), r)
                 else if d = CHR '','' then parse_elems (acc @ [v]) (skip_ws r)
                 else JSONDecodeError)
          else JSONDecodeError
      | JSONDecodeError \<Rightarrow> JSONDecodeError
      | Unsupported \<Rightarrow> Unsupported)"
| "parse_members acc s =
     (case scanstring [] s of
        Ok (key, after_key) \<Rightarrow>
          (case skip_ws after_key of
             [] \<Rightarrow> JSONDecodeError
           | colon # past_colon \<Rightarrow>
               if colon = CHR '':'' \<and> length past_colon < length s then
                 (case parse_value (skip_ws past_colon) of
                    Ok (v, rest) \<Rightarrow>
                      if length rest < length s then
                        (case skip_ws rest of
                           [] \<Rightarrow> JSONDecodeError
                         | d # r \<Rightarrow>
                             if d = CHR ''}'' then Ok (JObj (dict_of (acc @ [(key, v)])), r)
                             else if d = CHR '','' then
                               (case skip_ws r of
                                  [] \<Rightarrow> JSONDecodeError
                                | q # r' \<Rightarrow>
                                    if q = CHR 0x22 then parse_members (acc @ [(key, v)]) r'
                                    else JSONDecodeError)
                             else JSONDecodeError)
                      else JSONDecodeError
                  | JSONDecodeError \<Rightarrow> JSONDecodeError
                  | Unsupported \<Rightarrow> Unsupported)
               else JSONDecodeError)
      | JSONDecodeError \<Rightarrow> JSONDecodeError
      | Unsupported \<Rightarrow> Unsupported)"
  by pat_completeness auto

lemma length_skip_ws: "length (skip_ws s) \<le> length s"
  by (simp add: skip_ws_def length_dropWhile_le)

lemma skip_ws_Cons_shorter: "skip_ws s = d # r \<Longrightarrow> length r < length s"
  using length_skip_ws [of s] by simp

termination parse_value
proof (relation "measure (\<lambda>x. case x of
          Inl s \<Rightarrow> 2 * length s
        | Inr (Inl (acc, s)) \<Rightarrow> 2 * length s + 1
        | Inr (Inr (acc, s)) \<Rightarrow> 2 * length s + 1)", goal_cases)
  case 1
  then show ?case by simp
next
  case (2 s c cs d r)
  then show ?case using skip_ws_Cons_shorter [of cs d r] by simp
next
  case (3 s c cs d r)
  then show ?case using skip_ws_Cons_shorter [of cs d r] by simp
next
  case (4 acc s)
  then show ?case by simp
next
  case (5 acc s x v rest d r)
  then show ?case using skip_ws_Cons_shorter [of rest d r] length_skip_ws [of r] by simp
next
  case (6 acc s x key after_key colon past_colon)
  then show ?case using length_skip_ws [of past_colon] by simp
next
  case (7 acc s x key after_key colon past_colon y v rest d r q r')
  then show ?case
    using skip_ws_Cons_shorter [of rest d r] skip_ws_Cons_shorter [of r q r'] by simp
qed

definition loads :: "string \<Rightarrow> json result" where
  \<comment> \<open>\<open>JSONDecoder.decode\<close>: whitespace, one value, whitespace, the end.\<close>
  "loads s =
     (case parse_value (skip_ws s) of
        Ok (v, rest) \<Rightarrow> if skip_ws rest = [] then Ok v else JSONDecodeError
      | JSONDecodeError \<Rightarrow> JSONDecodeError
      | Unsupported \<Rightarrow> Unsupported)"

subsection \<open>Encoding: \<open>json.dumps\<close> with \<open>indent=2\<close>\<close>

definition hexdigit :: "nat \<Rightarrow> char" where
  "hexdigit n = (if n < 10 then char_of (48 + n) else char_of (87 + n))"

definition escape_char :: "char \<Rightarrow> string" where
  \<comment> \<open>\<open>ensure_ascii\<close>: the quote, the backslash and everything outside space to tilde.\<close>
  "escape_char c =
     (if c = CHR 0x22 then [CHR 0x5C, CHR 0x22]
      else if c = CHR 0x5C then [CHR 0x5C, CHR 0x5C]
      else if c = CHR 0x0A then [CHR 0x5C, CHR ''n'']
      else if c = CHR 0x0D then [CHR 0x5C, CHR ''r'']
      else if c = CHR 0x09 then [CHR 0x5C, CHR ''t'']
      else if c = CHR 0x08 then [CHR 0x5C, CHR ''b'']
      else if c = CHR 0x0C then [CHR 0x5C, CHR ''f'']
      else if 32 \<le> (of_char c :: nat) \<and> (of_char c :: nat) \<le> 126 then [c]
      else [CHR 0x5C, CHR ''u'', CHR ''0'', CHR ''0'',
            hexdigit ((of_char c :: nat) div 16), hexdigit ((of_char c :: nat) mod 16)])"

definition encode_string :: "string \<Rightarrow> string" where
  "encode_string s = CHR 0x22 # concat (map escape_char s) @ [CHR 0x22]"

fun show_nat :: "nat \<Rightarrow> string" where
  "show_nat n = (if n < 10 then [char_of (48 + n)] else show_nat (n div 10) @ [char_of (48 + n mod 10)])"

declare show_nat.simps [simp del]

definition show_int :: "int \<Rightarrow> string" where
  \<comment> \<open>\<open>int.__repr__\<close>\<close>
  "show_int i = (if i < 0 then CHR ''-'' # show_nat (nat (- i)) else show_nat (nat i))"

definition newline_indent :: "nat \<Rightarrow> string" where
  \<comment> \<open>\<open>'\n' + _indent * _current_indent_level\<close> with an indent of two spaces.\<close>
  "newline_indent level = CHR 0x0A # replicate (2 * level) (CHR '' '')"

fun join :: "string \<Rightarrow> string list \<Rightarrow> string" where
  "join sep [] = []"
| "join sep [x] = x"
| "join sep (x # y # ys) = x @ sep @ join sep (y # ys)"

function iterencode :: "bool \<Rightarrow> nat \<Rightarrow> json \<Rightarrow> string" where
  \<comment> \<open>\<open>_iterencode\<close>, its chunks joined; the first argument is \<open>sort_keys\<close>, the second the
      current indent level.\<close>
  "iterencode sk lvl JNull = ''null''"
| "iterencode sk lvl (JBool b) = (if b then ''true'' else ''false'')"
| "iterencode sk lvl (JInt i) = show_int i"
| "iterencode sk lvl (JStr s) = encode_string s"
| "iterencode sk lvl (JArr xs) =
     (if xs = [] then ''[]''
      else ''['' @ newline_indent (Suc lvl)
           @ join ('','' @ newline_indent (Suc lvl)) (map (iterencode sk (Suc lvl)) xs)
           @ newline_indent lvl @ '']'')"
| "iterencode sk lvl (JObj kvs) =
     (if kvs = [] then ''{}''
      else ''{'' @ newline_indent (Suc lvl)
           @ join ('','' @ newline_indent (Suc lvl))
               (map (\<lambda>(k, v). encode_string k @ '': '' @ iterencode sk (Suc lvl) v)
                    (if sk then sort_key fst kvs else kvs))
           @ newline_indent lvl @ ''}'')"
  by pat_completeness auto

lemma size_element: "x \<in> set xs \<Longrightarrow> size x < Suc (size_list size xs)"
  by (induction xs) auto

lemma size_member:
  "(k, v) \<in> set kvs \<Longrightarrow> size v < Suc (size_list (size_prod (\<lambda>x. 0) size) kvs)"
  by (induction kvs) auto

termination iterencode
  by (relation "measure (\<lambda>(sk, lvl, j). size j)")
    (auto simp: size_element size_member split: if_splits)

definition dumps :: "bool \<Rightarrow> json \<Rightarrow> string" where
  \<comment> \<open>\<open>json.dumps(obj, indent=2, sort_keys=sk)\<close>\<close>
  "dumps sk obj = iterencode sk 0 obj"

declare parse_value.simps [simp del] parse_elems.simps [simp del] parse_members.simps [simp del]

section \<open>The difflib module, as update\_context.py uses it\<close>

text \<open>
  \<open>SequenceMatcher(None, a, b)\<close> with its defaults: no junk predicate, so the junk set is
  empty and the two loops of \<open>find_longest_match\<close> that extend a match over junk never run;
  \<open>autojunk\<close> is on, so in a \<open>b\<close> of 200 elements or more an element that fills more than
  one percent of it (plus one) is dropped from the index \<open>b2j\<close>.
\<close>

definition popular :: "'a list \<Rightarrow> 'a \<Rightarrow> bool" where
  "popular b x = (200 \<le> length b \<and> length b div 100 + 1 < count_list b x)"

definition b2j :: "'a list \<Rightarrow> 'a \<Rightarrow> nat list" where
  \<comment> \<open>\<open>b2j.get(x, [])\<close>: the indices of \<open>x\<close> in \<open>b\<close>, increasing.\<close>
  "b2j b x = (if popular b x then [] else filter (\<lambda>j. b ! j = x) [0 ..< length b])"

type_synonym block = "nat \<times> nat \<times> nat"

fun match_row ::
  "nat \<Rightarrow> nat \<Rightarrow> nat \<Rightarrow> (nat \<Rightarrow> nat) \<Rightarrow> nat list \<Rightarrow> (nat \<Rightarrow> nat) \<times> block \<Rightarrow> (nat \<Rightarrow> nat) \<times> block" where
  \<comment> \<open>The inner loop for one \<open>i\<close>: \<open>j2len\<close> is the row before (0 where the dictionary has no
      key), the state is \<open>newj2len\<close> and the best block so far.\<close>
  "match_row i blo bhi j2len [] st = st"
| "match_row i blo bhi j2len (j # js) (newj2len, besti, bestj, bestsize) =
     (if j < blo then match_row i blo bhi j2len js (newj2len, besti, bestj, bestsize)
      else if bhi \<le> j then (newj2len, besti, bestj, bestsize)
      else
        let k = (if j = 0 then 0 else j2len (j - 1)) + 1 in
        if bestsize < k
        then match_row i blo bhi j2len js (newj2len(j := k), i + 1 - k, j + 1 - k, k)
        else match_row i blo bhi j2len js (newj2len(j := k), besti, bestj, bestsize))"

fun match_rows ::
  "'a list \<Rightarrow> 'a list \<Rightarrow> nat \<Rightarrow> nat \<Rightarrow> nat list \<Rightarrow> (nat \<Rightarrow> nat) \<times> block \<Rightarrow> (nat \<Rightarrow> nat) \<times> block" where
  \<comment> \<open>The outer loop, \<open>for i in range(alo, ahi)\<close>.\<close>
  "match_rows a b blo bhi [] st = st"
| "match_rows a b blo bhi (i # rest) (j2len, best) =
     match_rows a b blo bhi rest (match_row i blo bhi j2len (b2j b (a ! i)) (\<lambda>_. 0, best))"

function extend_back :: "'a list \<Rightarrow> 'a list \<Rightarrow> nat \<Rightarrow> nat \<Rightarrow> block \<Rightarrow> block" where
  "extend_back a b alo blo (besti, bestj, bestsize) =
     (if alo < besti \<and> blo < bestj \<and> a ! (besti - 1) = b ! (bestj - 1)
      then extend_back a b alo blo (besti - 1, bestj - 1, bestsize + 1)
      else (besti, bestj, bestsize))"
  by pat_completeness auto

termination
  by (relation "measure (\<lambda>(a, b, alo, blo, besti, bestj, bestsize). besti)") auto

function extend_forward :: "'a list \<Rightarrow> 'a list \<Rightarrow> nat \<Rightarrow> nat \<Rightarrow> block \<Rightarrow> block" where
  "extend_forward a b ahi bhi (besti, bestj, bestsize) =
     (if besti + bestsize < ahi \<and> bestj + bestsize < bhi
         \<and> a ! (besti + bestsize) = b ! (bestj + bestsize)
      then extend_forward a b ahi bhi (besti, bestj, bestsize + 1)
      else (besti, bestj, bestsize))"
  by pat_completeness auto

termination
  by (relation "measure (\<lambda>(a, b, ahi, bhi, besti, bestj, bestsize). ahi - (besti + bestsize))") auto

declare extend_back.simps [simp del] extend_forward.simps [simp del]

definition find_longest_match :: "'a list \<Rightarrow> 'a list \<Rightarrow> nat \<Rightarrow> nat \<Rightarrow> nat \<Rightarrow> nat \<Rightarrow> block" where
  "find_longest_match a b alo ahi blo bhi =
     extend_forward a b ahi bhi
       (extend_back a b alo blo
         (snd (match_rows a b blo bhi [alo ..< ahi] (\<lambda>_. 0, (alo, blo, 0)))))"

subsection \<open>A match lies inside its range\<close>

lemma match_row_bounds:
  assumes "\<forall>j. j2len j \<le> i - alo" and "alo \<le> i"
      and "\<forall>j. new j \<le> i + 1 - alo" and "alo \<le> bi" and "bi + bs \<le> i + 1"
      and "match_row i blo bhi j2len js (new, bi, bj, bs) = (new', bi', bj', bs')"
  shows "(\<forall>j. new' j \<le> i + 1 - alo) \<and> alo \<le> bi' \<and> bi' + bs' \<le> i + 1"
  using assms
proof (induction js arbitrary: new bi bj bs)
  case Nil
  then show ?case by simp
next
  case (Cons j js)
  let ?k = "(if j = 0 then 0 else j2len (j - 1)) + 1"
  have "j2len (j - 1) \<le> i - alo"
    using Cons.prems(1) by simp
  then have k: "?k \<le> i + 1 - alo"
    using Cons.prems(2) by auto
  show ?case
  proof (cases "j < blo")
    case True
    with Cons show ?thesis by simp
  next
    case nlo: False
    show ?thesis
    proof (cases "bhi \<le> j")
      case True
      with nlo Cons.prems show ?thesis by simp
    next
      case False
      have new: "\<forall>j'. (new(j := ?k)) j' \<le> i + 1 - alo"
        using Cons.prems(3) k by (auto split: if_splits)
      show ?thesis
      proof (cases "bs < ?k")
        case True
        have "match_row i blo bhi j2len js (new(j := ?k), i + 1 - ?k, j + 1 - ?k, ?k) = (new', bi', bj', bs')"
          using Cons.prems(6) nlo False True by (simp add: Let_def)
        moreover have "alo \<le> i + 1 - ?k" using k Cons.prems(2) by linarith
        moreover have "i + 1 - ?k + ?k \<le> i + 1" using k by linarith
        ultimately show ?thesis
          using Cons.IH [OF Cons.prems(1,2) new] by blast
      next
        case nb: False
        have "match_row i blo bhi j2len js (new(j := ?k), bi, bj, bs) = (new', bi', bj', bs')"
          using Cons.prems(6) nlo False nb by (simp add: Let_def)
        then show ?thesis
          using Cons.IH [OF Cons.prems(1,2) new Cons.prems(4,5)] by blast
      qed
    qed
  qed
qed

lemma match_rows_bounds:
  assumes "\<forall>j. j2len j \<le> i - alo" and "alo \<le> i" and "alo \<le> bi" and "bi + bs \<le> i"
      and "match_rows a b blo bhi [i ..< ahi] (j2len, bi, bj, bs) = (j2len', bi', bj', bs')"
  shows "alo \<le> bi' \<and> bi' + bs' \<le> max i ahi"
  using assms
proof (induction "ahi - i" arbitrary: i j2len bi bj bs)
  case 0
  then show ?case by simp
next
  case (Suc n)
  then have lt: "i < ahi" by simp
  obtain new1 bi1 bj1 bs1 where
    row: "match_row i blo bhi j2len (b2j b (a ! i)) (\<lambda>_. 0, bi, bj, bs) = (new1, bi1, bj1, bs1)"
    by (metis prod_cases4)
  have r: "(\<forall>j. new1 j \<le> i + 1 - alo) \<and> alo \<le> bi1 \<and> bi1 + bs1 \<le> i + 1"
    by (rule match_row_bounds [OF Suc.prems(1,2) _ Suc.prems(3) _ row]) (use Suc.prems(4) in auto)
  have rest: "match_rows a b blo bhi [Suc i ..< ahi] (new1, bi1, bj1, bs1) = (j2len', bi', bj', bs')"
    using Suc.prems(5) lt row by (simp add: upt_conv_Cons)
  have "alo \<le> bi' \<and> bi' + bs' \<le> max (Suc i) ahi"
    by (rule Suc.hyps(1) [OF _ _ _ _ _ rest]) (use Suc.hyps(2) Suc.prems(2) r in auto)
  with lt show ?case by simp
qed

lemma extend_back_bounds:
  "extend_back a b alo blo (bi, bj, bs) = (bi', bj', bs') \<Longrightarrow> alo \<le> bi \<Longrightarrow>
     alo \<le> bi' \<and> bi' + bs' = bi + bs"
proof (induction a b alo blo "(bi, bj, bs)" arbitrary: bi bj bs rule: extend_back.induct)
  case (1 a b alo blo besti bestj bestsize)
  show ?case
  proof (cases "alo < besti \<and> blo < bestj \<and> a ! (besti - 1) = b ! (bestj - 1)")
    case True
    then have "extend_back a b alo blo (besti - 1, bestj - 1, bestsize + 1) = (bi', bj', bs')"
      using "1.prems"(1) by (simp add: extend_back.simps [of a b alo blo besti])
    from "1.hyps" [OF True this] True "1.prems"(2) show ?thesis by auto
  next
    case False
    then show ?thesis
      using "1.prems" by (auto simp: extend_back.simps [of a b alo blo besti])
  qed
qed

lemma extend_forward_bounds:
  "extend_forward a b ahi bhi (bi, bj, bs) = (bi', bj', bs') \<Longrightarrow> bi + bs \<le> ahi \<Longrightarrow>
     bi' = bi \<and> bs \<le> bs' \<and> bi' + bs' \<le> ahi"
proof (induction a b ahi bhi "(bi, bj, bs)" arbitrary: bi bj bs rule: extend_forward.induct)
  case (1 a b ahi bhi besti bestj bestsize)
  show ?case
  proof (cases "besti + bestsize < ahi \<and> bestj + bestsize < bhi
         \<and> a ! (besti + bestsize) = b ! (bestj + bestsize)")
    case True
    then have "extend_forward a b ahi bhi (besti, bestj, bestsize + 1) = (bi', bj', bs')"
      using "1.prems"(1) by (simp add: extend_forward.simps [of a b ahi bhi besti])
    from "1.hyps" [OF True this] True "1.prems"(2) show ?thesis by auto
  next
    case False
    then show ?thesis
      using "1.prems" by (auto simp: extend_forward.simps [of a b ahi bhi besti])
  qed
qed

lemma find_longest_match_bounds:
  assumes "find_longest_match a b alo ahi blo bhi = (i, j, k)" and "k \<noteq> 0"
  shows "alo \<le> i \<and> i + k \<le> ahi"
proof -
  obtain j2 b1 j1 k1 where rows:
    "match_rows a b blo bhi [alo ..< ahi] (\<lambda>_. 0, (alo, blo, 0)) = (j2, b1, j1, k1)"
    by (metis prod_cases4)
  obtain b2 j2' k2 where bk: "extend_back a b alo blo (b1, j1, k1) = (b2, j2', k2)"
    by (metis prod_cases3)
  have fwd: "extend_forward a b ahi bhi (b2, j2', k2) = (i, j, k)"
    using assms(1) rows bk by (simp add: find_longest_match_def)
  have r: "alo \<le> b1 \<and> b1 + k1 \<le> max alo ahi"
    by (rule match_rows_bounds [OF _ _ _ _ rows]) auto
  from extend_back_bounds [OF bk] r have bk: "alo \<le> b2" "b2 + k2 = b1 + k1" by auto
  show ?thesis
  proof (cases "alo \<le> ahi")
    case True
    with r bk have "b2 + k2 \<le> ahi" by simp
    from extend_forward_bounds [OF fwd this] bk show ?thesis by simp
  next
    case False
    then have "[alo ..< ahi] = []" by simp
    with rows have "b1 = alo" "k1 = 0" by auto
    with bk have "b2 = alo" "k2 = 0"
      by (auto simp: extend_back.simps [of a b alo blo alo])
    with fwd False have "k = 0"
      by (auto simp: extend_forward.simps [of a b ahi bhi alo])
    with assms(2) show ?thesis by simp
  qed
qed

subsection \<open>Matching blocks, opcodes, groups\<close>

type_synonym range = "nat \<times> nat \<times> nat \<times> nat"

definition queue_weight :: "range list \<Rightarrow> nat" where
  "queue_weight q = sum_list (map (\<lambda>(alo, ahi, blo, bhi). 2 * (ahi - alo) + 1) q)"

function match_queue :: "'a list \<Rightarrow> 'a list \<Rightarrow> range list \<Rightarrow> block list \<Rightarrow> block list" where
  \<comment> \<open>The \<open>while queue\<close> loop of \<open>get_matching_blocks\<close>; the head of the list is the end of
      Python's \<open>queue\<close>, where \<open>pop\<close> takes from and \<open>append\<close> adds to.\<close>
  "match_queue a b [] blocks = blocks"
| "match_queue a b ((alo, ahi, blo, bhi) # queue) blocks =
     (case find_longest_match a b alo ahi blo bhi of
        (i, j, k) \<Rightarrow>
          if k \<noteq> 0 then
            match_queue a b
              ((if i + k < ahi \<and> j + k < bhi then [(i + k, ahi, j + k, bhi)] else [])
                @ (if alo < i \<and> blo < j then [(alo, i, blo, j)] else [])
                @ queue)
              (blocks @ [(i, j, k)])
          else match_queue a b queue blocks)"
  by pat_completeness auto

lemma queue_weight_Cons:
  "queue_weight ((alo, ahi, blo, bhi) # q) = 2 * (ahi - alo) + 1 + queue_weight q"
  by (simp add: queue_weight_def)

lemma queue_weight_append: "queue_weight (p @ q) = queue_weight p + queue_weight q"
  by (simp add: queue_weight_def)

lemma queue_weight_Nil: "queue_weight [] = 0"
  by (simp add: queue_weight_def)

termination match_queue
proof (relation "measure (\<lambda>(a, b, q, blocks). queue_weight q)", goal_cases)
  case 1
  then show ?case by simp
next
  case (2 a b alo ahi blo bhi queue blocks i jk j k)
  then have "find_longest_match a b alo ahi blo bhi = (i, j, k)" by simp
  from find_longest_match_bounds [OF this] 2 have "alo \<le> i \<and> i + k \<le> ahi" by simp
  with 2(3) show ?case
    by (auto simp: queue_weight_Cons queue_weight_append queue_weight_Nil)
next
  case 3
  then show ?case by (simp add: queue_weight_Cons)
qed

fun collapse :: "block \<Rightarrow> block list \<Rightarrow> block list" where
  \<comment> \<open>The loop that merges adjacent blocks; the first argument is \<open>(i1, j1, k1)\<close>.\<close>
  "collapse (i1, j1, k1) [] = (if k1 \<noteq> 0 then [(i1, j1, k1)] else [])"
| "collapse (i1, j1, k1) ((i2, j2, k2) # rest) =
     (if i1 + k1 = i2 \<and> j1 + k1 = j2 then collapse (i1, j1, k1 + k2) rest
      else (if k1 \<noteq> 0 then [(i1, j1, k1)] else []) @ collapse (i2, j2, k2) rest)"

definition get_matching_blocks :: "'a list \<Rightarrow> 'a list \<Rightarrow> block list" where
  "get_matching_blocks a b =
     collapse (0, 0, 0) (sort (match_queue a b [(0, length a, 0, length b)] []))
       @ [(length a, length b, 0)]"

datatype tag = Replace | Delete | Insert | Equal

type_synonym opcode = "tag \<times> nat \<times> nat \<times> nat \<times> nat"

fun opcodes_from :: "nat \<Rightarrow> nat \<Rightarrow> block list \<Rightarrow> opcode list" where
  "opcodes_from i j [] = []"
| "opcodes_from i j ((ai, bj, sz) # blocks) =
     (if i < ai \<and> j < bj then [(Replace, i, ai, j, bj)]
      else if i < ai then [(Delete, i, ai, j, bj)]
      else if j < bj then [(Insert, i, ai, j, bj)]
      else [])
     @ (if sz \<noteq> 0 then [(Equal, ai, ai + sz, bj, bj + sz)] else [])
     @ opcodes_from (ai + sz) (bj + sz) blocks"

definition get_opcodes :: "'a list \<Rightarrow> 'a list \<Rightarrow> opcode list" where
  "get_opcodes a b = opcodes_from 0 0 (get_matching_blocks a b)"

definition trim_first :: "opcode \<Rightarrow> opcode" where
  \<comment> \<open>With \<open>n = 3\<close> lines of context: a leading \<open>equal\<close> keeps its last three lines.\<close>
  "trim_first c =
     (case c of (tag, i1, i2, j1, j2) \<Rightarrow>
        if tag = Equal then (tag, max i1 (i2 - 3), i2, max j1 (j2 - 3), j2) else c)"

definition trim_last :: "opcode \<Rightarrow> opcode" where
  "trim_last c =
     (case c of (tag, i1, i2, j1, j2) \<Rightarrow>
        if tag = Equal then (tag, i1, min i2 (i1 + 3), j1, min j2 (j1 + 3)) else c)"

fun group_loop :: "opcode list \<Rightarrow> opcode list \<Rightarrow> opcode list list" where
  \<comment> \<open>The generator's loop: the codes left, the group being built; the groups it yields.\<close>
  "group_loop [] grp =
     (if grp \<noteq> [] \<and> \<not> (length grp = 1 \<and> fst (hd grp) = Equal) then [grp] else [])"
| "group_loop ((tag, i1, i2, j1, j2) # codes) grp =
     (if tag = Equal \<and> 6 < i2 - i1 then
        (grp @ [(tag, i1, min i2 (i1 + 3), j1, min j2 (j1 + 3))])
          # group_loop codes [(tag, max i1 (i2 - 3), i2, max j1 (j2 - 3), j2)]
      else group_loop codes (grp @ [(tag, i1, i2, j1, j2)]))"

definition get_grouped_opcodes :: "'a list \<Rightarrow> 'a list \<Rightarrow> opcode list list" where
  "get_grouped_opcodes a b =
     (let codes0 = get_opcodes a b;
          codes1 = (if codes0 = [] then [(Equal, 0, 1, 0, 1)] else codes0);
          codes2 = trim_first (hd codes1) # tl codes1;
          codes3 = butlast codes2 @ [trim_last (last codes2)]
      in group_loop codes3 [])"

subsection \<open>\<open>unified_diff\<close>\<close>

definition slice :: "'a list \<Rightarrow> nat \<Rightarrow> nat \<Rightarrow> 'a list" where
  \<comment> \<open>\<open>xs[i:j]\<close>\<close>
  "slice xs i j = take (j - i) (drop i xs)"

definition format_range_unified :: "nat \<Rightarrow> nat \<Rightarrow> string" where
  "format_range_unified start stop =
     (let beginning = start + 1; len = stop - start in
      if len = 1 then show_nat beginning
      else show_nat (if len = 0 then beginning - 1 else beginning) @ '','' @ show_nat len)"

definition opcode_lines :: "string list \<Rightarrow> string list \<Rightarrow> opcode \<Rightarrow> string list" where
  "opcode_lines a b c =
     (case c of (tag, i1, i2, j1, j2) \<Rightarrow>
        if tag = Equal then map (\<lambda>line. CHR '' '' # line) (slice a i1 i2)
        else (if tag = Replace \<or> tag = Delete then map (\<lambda>line. CHR ''-'' # line) (slice a i1 i2) else [])
           @ (if tag = Replace \<or> tag = Insert then map (\<lambda>line. CHR ''+'' # line) (slice b j1 j2) else []))"

definition hunk :: "string list \<Rightarrow> string list \<Rightarrow> string \<Rightarrow> opcode list \<Rightarrow> string list" where
  \<comment> \<open>One group: the \<open>@@\<close> line, then the lines of its opcodes.\<close>
  "hunk a b lineterm grp =
     (case (hd grp, last grp) of
        ((t1, i1, i2, j1, j2), (t2, k1, k2, l1, l2)) \<Rightarrow>
          (''@@ -'' @ format_range_unified i1 k2 @ '' +'' @ format_range_unified j1 l2 @ '' @@''
             @ lineterm)
          # concat (map (opcode_lines a b) grp))"

definition unified_diff ::
  "string list \<Rightarrow> string list \<Rightarrow> string \<Rightarrow> string \<Rightarrow> string \<Rightarrow> string list" where
  \<comment> \<open>\<open>list(difflib.unified_diff(a, b, fromfile=..., tofile=..., lineterm=...))\<close>, no file dates,
      \<open>n = 3\<close>.  The two header lines come before the first group, if there is one.\<close>
  "unified_diff a b fromfile tofile lineterm =
     (case get_grouped_opcodes a b of
        [] \<Rightarrow> []
      | groups \<Rightarrow>
          (''--- '' @ fromfile @ lineterm) # (''+++ '' @ tofile @ lineterm)
            # concat (map (hunk a b lineterm) groups))"

subsection \<open>A sequence against itself\<close>

text \<open>
  \<open>run_length a i\<close> is the number of consecutive elements, ending at \<open>a ! i\<close>, that are in the
  index \<open>b2j\<close> of \<open>a\<close>.  When \<open>a\<close> is matched against itself, the diagonal entry of row \<open>i\<close>
  is this number, no entry of the row is larger, and so the best block is only ever replaced
  by a block on the diagonal.
\<close>

fun run_length :: "'a list \<Rightarrow> nat \<Rightarrow> nat" where
  "run_length a 0 = (if popular a (a ! 0) then 0 else 1)"
| "run_length a (Suc i) = (if popular a (a ! Suc i) then 0 else Suc (run_length a i))"

lemma b2j_props:
  "sorted (b2j b x)" "distinct (b2j b x)"
  "j \<in> set (b2j b x) \<longleftrightarrow> \<not> popular b x \<and> j < length b \<and> b ! j = x"
  by (auto simp: b2j_def intro: sorted_wrt_filter)

lemma match_row_diag:
  assumes js: "sorted js" "distinct js" "\<forall>j\<in>set js. j < length a \<and> a ! j = a ! m \<and> \<not> popular a (a ! m)"
    and prev0: "m = 0 \<longrightarrow> (\<forall>j. j2len j = 0)"
    and prev: "0 < m \<longrightarrow> (\<forall>j. j2len j \<le> run_length a (m - 1) \<and> j2len j \<le> run_length a j) \<and> j2len (m - 1) = run_length a (m - 1)"
    and hist: "\<forall>i'<m. run_length a i' \<le> bs"
    and diag: "bi = bj"
    and new: "\<forall>j. new j \<le> run_length a m \<and> new j \<le> run_length a j"
    and pend: "m \<in> set js \<or> (run_length a m \<le> bs \<and> new m = run_length a m)"
    and res: "match_row m 0 (length a) j2len js (new, bi, bj, bs) = (new', bi', bj', bs')"
  shows "bi' = bj' \<and> (\<forall>i'<Suc m. run_length a i' \<le> bs')
       \<and> (\<forall>j. new' j \<le> run_length a m \<and> new' j \<le> run_length a j) \<and> new' m = run_length a m"
  using js hist diag new pend res
proof (induction js arbitrary: new bi bj bs)
  case Nil
  then show ?case by (auto simp: less_Suc_eq)
next
  case (Cons j js)
  let ?k = "(if j = 0 then 0 else j2len (j - 1)) + 1"
  have jn: "j < length a" and jm: "a ! j = a ! m" and np: "\<not> popular a (a ! m)"
    using Cons.prems(3) by auto
  have npj: "\<not> popular a (a ! j)" using jm np by simp
  have runj: "run_length a j = (if j = 0 then 1 else Suc (run_length a (j - 1)))"
    using npj by (cases j) auto
  have runm: "run_length a m = (if m = 0 then 1 else Suc (run_length a (m - 1)))"
    using np by (cases m) auto
  have kj: "?k \<le> run_length a j"
  proof (cases "j = 0")
    case True then show ?thesis using runj by simp
  next
    case False
    show ?thesis
    proof (cases "m = 0")
      case True
      with prev0 have "j2len (j - 1) = 0" by simp
      with False runj show ?thesis by simp
    next
      case m: False
      with prev have "j2len (j - 1) \<le> run_length a (j - 1)" by simp
      with False runj show ?thesis by simp
    qed
  qed
  have km: "?k \<le> run_length a m"
  proof (cases "m = 0")
    case True
    with prev0 have "?k = 1" by simp
    with True runm show ?thesis by simp
  next
    case m: False
    show ?thesis
    proof (cases "j = 0")
      case True
      with m runm show ?thesis by simp
    next
      case False
      from m prev have "j2len (j - 1) \<le> run_length a (m - 1)" by simp
      with m False runm show ?thesis by simp
    qed
  qed
  have keq: "j = m \<Longrightarrow> ?k = run_length a m"
  proof -
    assume e: "j = m"
    show ?thesis
    proof (cases "m = 0")
      case True
      with e runm show ?thesis by simp
    next
      case False
      with prev have "j2len (m - 1) = run_length a (m - 1)" by simp
      with False e runm show ?thesis by simp
    qed
  qed
  have js': "sorted js" "distinct js" "\<forall>j\<in>set js. j < length a \<and> a ! j = a ! m \<and> \<not> popular a (a ! m)"
    and jnot: "j \<notin> set js" and jlt: "\<forall>x\<in>set js. j < x"
    using Cons.prems(1,2,3) by (auto simp: less_le)
  have new1: "\<forall>x. (new(j := ?k)) x \<le> run_length a m \<and> (new(j := ?k)) x \<le> run_length a x"
    using Cons.prems(6) kj km by (auto simp del: run_length.simps)
  show ?case
  proof (cases "bs < ?k")
    case True
    \<comment> \<open>an update: only possible on the diagonal\<close>
    have "j = m"
    proof (rule ccontr)
      assume ne: "j \<noteq> m"
      show False
      proof (cases "j < m")
        case True
        with Cons.prems(4) have "run_length a j \<le> bs" by simp
        with kj \<open>bs < ?k\<close> show False by simp
      next
        case False
        with ne have "m < j" by simp
        with jlt have "m \<notin> set (j # js)" by auto
        with Cons.prems(7) have "run_length a m \<le> bs" by simp
        with km \<open>bs < ?k\<close> show False by simp
      qed
    qed
    have step: "match_row m 0 (length a) j2len js (new(j := ?k), m + 1 - ?k, j + 1 - ?k, ?k) = (new', bi', bj', bs')"
      using Cons.prems(8) True jn by (simp add: Let_def)
    have h: "\<forall>i'<m. run_length a i' \<le> ?k" using Cons.prems(4) True by auto
    have d: "m + 1 - ?k = j + 1 - ?k" using \<open>j = m\<close> by simp
    have p: "m \<in> set js \<or> (run_length a m \<le> ?k \<and> (new(j := ?k)) m = run_length a m)"
      using \<open>j = m\<close> keq by simp
    from Cons.IH [OF js' h d new1 p step] show ?thesis .
  next
    case False
    have step: "match_row m 0 (length a) j2len js (new(j := ?k), bi, bj, bs) = (new', bi', bj', bs')"
      using Cons.prems(8) False jn by (simp add: Let_def)
    have p: "m \<in> set js \<or> (run_length a m \<le> bs \<and> (new(j := ?k)) m = run_length a m)"
    proof (cases "j = m")
      case True
      with keq False show ?thesis by simp
    next
      case ne: False
      with Cons.prems(7) show ?thesis by auto
    qed
    from Cons.IH [OF js' Cons.prems(4,5) new1 p step] show ?thesis .
  qed
qed


lemma match_rows_diag:
  assumes "bi = bj"
    and "\<forall>i'<m. run_length a i' \<le> bs"
    and "m = 0 \<longrightarrow> (\<forall>j. j2len j = 0)"
    and "0 < m \<longrightarrow> (\<forall>j. j2len j \<le> run_length a (m - 1) \<and> j2len j \<le> run_length a j) \<and> j2len (m - 1) = run_length a (m - 1)"
    and "match_rows a a 0 (length a) [m ..< length a] (j2len, bi, bj, bs) = (j2len', bi', bj', bs')"
  shows "bi' = bj'"
  using assms
proof (induction "length a - m" arbitrary: m j2len bi bj bs)
  case 0
  then show ?case by simp
next
  case (Suc n)
  then have lt: "m < length a" by simp
  obtain new1 bi1 bj1 bs1 where
    row: "match_row m 0 (length a) j2len (b2j a (a ! m)) (\<lambda>_. 0, bi, bj, bs) = (new1, bi1, bj1, bs1)"
    by (metis prod_cases4)
  have rest: "match_rows a a 0 (length a) [Suc m ..< length a] (new1, bi1, bj1, bs1) = (j2len', bi', bj', bs')"
    using Suc.prems(5) lt row by (simp add: upt_conv_Cons)
  have r: "bi1 = bj1 \<and> (\<forall>i'<Suc m. run_length a i' \<le> bs1)
       \<and> (\<forall>j. new1 j \<le> run_length a m \<and> new1 j \<le> run_length a j) \<and> new1 m = run_length a m"
  proof (cases "popular a (a ! m)")
    case True
    then have "b2j a (a ! m) = []" by (simp add: b2j_def)
    with row have e: "new1 = (\<lambda>_. 0)" "bi1 = bi" "bj1 = bj" "bs1 = bs" by auto
    have "run_length a m = 0" using True by (cases m) auto
    with e Suc.prems(1,2) show ?thesis by (auto simp: less_Suc_eq simp del: run_length.simps)
  next
    case False
    have mem: "m \<in> set (b2j a (a ! m))" using False lt by (simp add: b2j_props(3))
    show ?thesis
    proof (rule match_row_diag [OF b2j_props(1) b2j_props(2) _ Suc.prems(3) Suc.prems(4) Suc.prems(2) Suc.prems(1) _ _ row])
      show "\<forall>j\<in>set (b2j a (a ! m)). j < length a \<and> a ! j = a ! m \<and> \<not> popular a (a ! m)"
        using False by (simp add: b2j_props(3))
      show "\<forall>j. (\<lambda>_. 0::nat) j \<le> run_length a m \<and> (\<lambda>_. 0::nat) j \<le> run_length a j" by simp
      show "m \<in> set (b2j a (a ! m)) \<or> run_length a m \<le> bs \<and> (\<lambda>_. 0::nat) m = run_length a m"
        using mem by simp
    qed
  qed
  show ?case
  proof (rule Suc.hyps(1) [OF _ _ _ _ _ rest])
    show "n = length a - Suc m" using Suc.hyps(2) by simp
    show "bi1 = bj1" using r by simp
    show "\<forall>i'<Suc m. run_length a i' \<le> bs1" using r by simp
    show "Suc m = 0 \<longrightarrow> (\<forall>j. new1 j = 0)" by simp
    show "0 < Suc m \<longrightarrow> (\<forall>j. new1 j \<le> run_length a (Suc m - 1) \<and> new1 j \<le> run_length a j) \<and> new1 (Suc m - 1) = run_length a (Suc m - 1)"
      using r by simp
  qed
qed

lemma extend_back_diag: "extend_back a a 0 0 (i, i, k) = (0, 0, k + i)"
proof (induction i arbitrary: k)
  case 0
  show ?case by (simp add: extend_back.simps [of a a 0 0 0])
next
  case (Suc i)
  show ?case using Suc [of "Suc k"] by (simp add: extend_back.simps [of a a 0 0 "Suc i"])
qed

lemma extend_forward_diag:
  "k \<le> length a \<Longrightarrow> extend_forward a a (length a) (length a) (0, 0, k) = (0, 0, length a)"
proof (induction "length a - k" arbitrary: k)
  case 0
  then show ?case by (subst extend_forward.simps) simp
next
  case (Suc n)
  then have "extend_forward a a (length a) (length a) (0, 0, Suc k) = (0, 0, length a)"
    by simp
  moreover have "k < length a" using Suc.hyps(2) by simp
  ultimately show ?case
    by (simp add: extend_forward.simps [of a a "length a" "length a" 0 0 k])
qed

lemma find_longest_match_same:
  "find_longest_match a a 0 (length a) 0 (length a) = (0, 0, length a)"
proof -
  obtain j2 bi bj bs where rows:
    "match_rows a a 0 (length a) [0 ..< length a] (\<lambda>_. 0, (0, 0, 0)) = (j2, bi, bj, bs)"
    by (metis prod_cases4)
  have d: "bi = bj"
    by (rule match_rows_diag [OF _ _ _ _ rows]) auto
  have b: "0 \<le> bi \<and> bi + bs \<le> max 0 (length a)"
    by (rule match_rows_bounds [OF _ _ _ _ rows]) auto
  show ?thesis
    using rows d b by (simp add: find_longest_match_def extend_back_diag extend_forward_diag)
qed

lemma match_queue_same:
  "match_queue a a [(0, length a, 0, length a)] [] = (if a = [] then [] else [(0, 0, length a)])"
  by (simp add: find_longest_match_same)

lemma get_opcodes_same:
  "get_opcodes a a = (if a = [] then [] else [(Equal, 0, length a, 0, length a)])"
  by (simp add: get_opcodes_def get_matching_blocks_def match_queue_same del: match_queue.simps)

lemma get_grouped_opcodes_same: "get_grouped_opcodes a a = []"
proof -
  have "\<not> 6 < length a - (length a - 3)" by simp
  then show ?thesis
    by (simp add: get_grouped_opcodes_def get_opcodes_same trim_first_def trim_last_def Let_def)
qed

lemma unified_diff_same: "unified_diff a a fromfile tofile lineterm = []"
  by (simp add: unified_diff_def get_grouped_opcodes_same)

section \<open>What the encoder writes, the decoder reads back\<close>

subsection \<open>Numbers\<close>

lemma digit_char:
  assumes "d < 10"
  shows "isdecimal (char_of (48 + d))" "digit_val (char_of (48 + d)) = d"
    "char_of (48 + d) = CHR ''0'' \<longleftrightarrow> d = 0"
proof -
  have m: "(48 + d) mod 256 = 48 + d" using assms by simp
  show "isdecimal (char_of (48 + d))" using assms by (simp add: isdecimal_def m)
  show "digit_val (char_of (48 + d)) = d" by (simp add: digit_val_def m)
  have "char_of (48 + d) = CHR ''0'' \<longleftrightarrow> (of_char (char_of (48 + d)) :: nat) = of_char (CHR ''0'')"
    by (simp only: of_char_eq_iff)
  also have "\<dots> \<longleftrightarrow> d = 0" by (simp add: m)
  finally show "char_of (48 + d) = CHR ''0'' \<longleftrightarrow> d = 0" .
qed

lemma show_nat_not_Nil: "show_nat n \<noteq> []"
  by (subst show_nat.simps) simp

lemma show_nat_decimal: "list_all isdecimal (show_nat n)"
proof (induction n rule: show_nat.induct)
  case (1 n)
  show ?case
  proof (cases "n < 10")
    case True
    then show ?thesis by (subst show_nat.simps) (simp add: digit_char)
  next
    case False
    with 1 show ?thesis by (subst show_nat.simps) (simp add: digit_char)
  qed
qed

lemma digits_value_snoc: "digits_value (ds @ [c]) = 10 * digits_value ds + digit_val c"
  by (simp add: digits_value_def)

lemma digits_value_show_nat: "digits_value (show_nat n) = n"
proof (induction n rule: show_nat.induct)
  case (1 n)
  show ?case
  proof (cases "n < 10")
    case True
    then show ?thesis by (subst show_nat.simps) (simp add: digit_char digits_value_def)
  next
    case False
    with 1 show ?thesis by (subst show_nat.simps) (simp add: digit_char digits_value_snoc)
  qed
qed

lemma char_of_48: "char_of (48 :: nat) = CHR ''0''"
  using digit_char(3) [of 0] by simp

lemma show_nat_zero: "show_nat 0 = ''0''"
  by (subst show_nat.simps) (simp add: char_of_48)

lemma hd_show_nat: "0 < n \<Longrightarrow> hd (show_nat n) \<noteq> CHR ''0''"
proof (induction n rule: show_nat.induct)
  case (1 n)
  show ?case
  proof (cases "n < 10")
    case True
    with 1 show ?thesis by (subst show_nat.simps) (simp add: digit_char)
  next
    case False
    then have "0 < n div 10" by simp
    with 1 False have "hd (show_nat (n div 10)) \<noteq> CHR ''0''" by simp
    with False show ?thesis by (subst show_nat.simps) (simp add: show_nat_not_Nil)
  qed
qed

definition ends_number :: "string \<Rightarrow> bool" where
  "ends_number rest = (case rest of [] \<Rightarrow> True | c # _ \<Rightarrow> c = CHR 0x0A \<or> c = CHR '','')"

lemma ends_number_facts:
  assumes "ends_number rest"
  shows "takeWhile isdecimal rest = []" "dropWhile isdecimal rest = rest"
    "\<not> is_frac rest" "\<not> is_exp rest"
  using assms
  by (auto simp: ends_number_def isdecimal_def is_frac_def is_exp_def split: list.splits)

lemma match_number_show_nat:
  assumes "ends_number rest"
  shows "match_number (show_nat n @ rest) = Some (False, show_nat n, rest)"
proof (cases "n = 0")
  case True
  then show ?thesis
    by (simp add: show_nat_zero match_number_def startswith_def)
next
  case False
  obtain d ds where sn: "show_nat n = d # ds"
    using show_nat_not_Nil [of n] by (cases "show_nat n") auto
  have dec: "isdecimal d" "list_all isdecimal ds"
    using show_nat_decimal [of n] sn by auto
  have nz: "d \<noteq> CHR ''0''" using hd_show_nat [of n] False sn by simp
  have nm: "d \<noteq> CHR ''-''" using dec(1) by (auto simp: isdecimal_def)
  have tw: "takeWhile isdecimal (ds @ rest) = ds" "dropWhile isdecimal (ds @ rest) = rest"
    using dec(2) ends_number_facts(1,2) [OF assms]
    by (simp_all add: takeWhile_append2 dropWhile_append2 list_all_iff)
  show ?thesis
    using nz nm dec(1) tw by (simp add: sn match_number_def startswith_def)
qed

lemma match_number_show_int:
  assumes "ends_number rest"
  shows "match_number (show_int i @ rest) = Some (i < 0, show_nat (nat \<bar>i\<bar>), rest)"
proof (cases "i < 0")
  case True
  obtain d ds where sn: "show_nat (nat (- i)) = d # ds"
    using show_nat_not_Nil [of "nat (- i)"] by (cases "show_nat (nat (- i))") auto
  have dec: "isdecimal d" "list_all isdecimal ds"
    using show_nat_decimal [of "nat (- i)"] sn by auto
  have nz: "d \<noteq> CHR ''0''" using hd_show_nat [of "nat (- i)"] True sn by simp
  have tw: "takeWhile isdecimal (ds @ rest) = ds" "dropWhile isdecimal (ds @ rest) = rest"
    using dec(2) ends_number_facts(1,2) [OF assms]
    by (simp_all add: takeWhile_append2 dropWhile_append2 list_all_iff)
  have abs: "nat \<bar>i\<bar> = nat (- i)" using True by simp
  show ?thesis
    using True nz dec(1) tw by (simp add: abs sn show_int_def match_number_def startswith_def)
next
  case False
  then have abs: "nat \<bar>i\<bar> = nat i" by simp
  show ?thesis
    using False match_number_show_nat [OF assms, of "nat i"] by (simp add: abs show_int_def)
qed

lemma show_int_first:
  "\<exists>d ds. show_int i = d # ds \<and> (isdecimal d \<or> d = CHR ''-'')"
proof -
  obtain d ds where sn: "show_nat (nat i) = d # ds"
    using show_nat_not_Nil [of "nat i"] by (cases "show_nat (nat i)") auto
  have "isdecimal d" using show_nat_decimal [of "nat i"] sn by auto
  with sn show ?thesis by (auto simp: show_int_def)
qed

lemma parse_value_int:
  assumes "ends_number rest"
  shows "parse_value (show_int i @ rest) = Ok (JInt i, rest)"
proof -
  obtain d ds where si: "show_int i = d # ds" and d: "isdecimal d \<or> d = CHR ''-''"
    using show_int_first by blast
  have first: "d \<noteq> CHR 0x22" "d \<noteq> CHR ''{''" "d \<noteq> CHR ''[''" "d \<noteq> CHR ''n''"
    "d \<noteq> CHR ''t''" "d \<noteq> CHR ''f''"
    using d by (auto simp: isdecimal_def)
  have val: "(if i < 0 then - int (digits_value (show_nat (nat \<bar>i\<bar>)))
             else int (digits_value (show_nat (nat \<bar>i\<bar>)))) = i"
    by (simp add: digits_value_show_nat)
  have mn: "match_number (d # ds @ rest) = Some (i < 0, show_nat (nat \<bar>i\<bar>), rest)"
    using match_number_show_int [OF assms, of i] by (simp add: si)
  show ?thesis
    using first ends_number_facts(3,4) [OF assms] val
    by (simp add: si parse_value.simps [of "d # ds @ rest"] startswith_def mn)
qed


subsection \<open>Strings\<close>

lemma hexval_hexdigit: "d < 16 \<Longrightarrow> hexval (hexdigit d) = Some d"
  by (auto simp: hexval_def hexdigit_def Let_def)

lemma hexval_zero: "hexval (CHR ''0'') = Some 0"
  by (simp add: hexval_def)

lemma hex4_escape:
  "hex4 (CHR ''0'') (CHR ''0'') (hexdigit ((of_char c :: nat) div 16)) (hexdigit ((of_char c :: nat) mod 16))
     = Some (of_char c)"
proof -
  have "(of_char c :: nat) < 256" by simp
  then have "(of_char c :: nat) div 16 < 16" by (simp add: div_less_iff_less_mult)
  then show ?thesis
    by (simp add: hex4_def hexval_hexdigit hexval_zero)
qed

lemma scanstring_escape_char: "scanstring acc (escape_char c @ tail) = scanstring (c # acc) tail"
proof -
  have lt: "(of_char c :: nat) < 256" by simp
  consider (q) "c = CHR 0x22" | (b) "c = CHR 0x5C" | (n) "c = CHR 0x0A" | (r) "c = CHR 0x0D"
    | (t) "c = CHR 0x09" | (bs) "c = CHR 0x08" | (f) "c = CHR 0x0C"
    | (plain) "c \<noteq> CHR 0x22" "c \<noteq> CHR 0x5C" "32 \<le> (of_char c :: nat)" "(of_char c :: nat) \<le> 126"
    | (u) "c \<noteq> CHR 0x22" "c \<noteq> CHR 0x5C" "c \<noteq> CHR 0x0A" "c \<noteq> CHR 0x0D" "c \<noteq> CHR 0x09"
          "c \<noteq> CHR 0x08" "c \<noteq> CHR 0x0C" "\<not> (32 \<le> (of_char c :: nat) \<and> (of_char c :: nat) \<le> 126)"
    by blast
  then show ?thesis
  proof cases
    case plain
    then have "escape_char c = [c]" by (auto simp: escape_char_def)
    with plain show ?thesis by simp
  next
    case u
    then have e: "escape_char c = [CHR 0x5C, CHR ''u'', CHR ''0'', CHR ''0'',
            hexdigit ((of_char c :: nat) div 16), hexdigit ((of_char c :: nat) mod 16)]"
      by (simp add: escape_char_def)
    show ?thesis by (simp add: e hex4_escape)
  qed (simp_all add: escape_char_def unescape_def)
qed

lemma scanstring_encoded:
  "scanstring acc (concat (map escape_char s) @ CHR 0x22 # rest) = Ok (rev acc @ s, rest)"
proof (induction s arbitrary: acc)
  case Nil
  show ?case by simp
next
  case (Cons c s)
  show ?case using Cons [of "c # acc"] by (simp add: scanstring_escape_char)
qed

lemma parse_value_string: "parse_value (encode_string s @ rest) = Ok (JStr s, rest)"
  by (simp add: encode_string_def parse_value.simps [of "CHR 0x22 # _"] scanstring_encoded)

subsection \<open>Values that a \<open>dict\<close> can hold\<close>

text \<open>
  A Python \<open>dict\<close> has each key once.  The values of \<^typ>\<open>json\<close> that stand for a Python
  value are those in which no object, at any depth, has a key twice.
\<close>

fun distinct_keys :: "json \<Rightarrow> bool" where
  "distinct_keys (JArr xs) = list_all distinct_keys xs"
| "distinct_keys (JObj kvs) = (distinct (map fst kvs) \<and> list_all distinct_keys (map snd kvs))"
| "distinct_keys _ = True"

subsection \<open>Arrays and objects\<close>

lemma skip_ws_nonws: "\<not> json_ws c \<Longrightarrow> skip_ws (c # cs) = c # cs"
  by (simp add: skip_ws_def)

lemma skip_ws_indent: "\<not> json_ws c \<Longrightarrow> skip_ws (newline_indent n @ c # cs) = c # cs"
proof -
  assume c: "\<not> json_ws c"
  have "dropWhile json_ws (newline_indent n @ c # cs) = dropWhile json_ws (c # cs)"
    by (rule dropWhile_append2) (auto simp: newline_indent_def json_ws_def)
  with c show ?thesis by (simp add: skip_ws_def)
qed

lemma skip_ws_space: "\<not> json_ws c \<Longrightarrow> skip_ws (CHR '' '' # c # cs) = c # cs"
  by (simp add: skip_ws_def json_ws_def)

lemma ends_number_indent: "ends_number (newline_indent n @ s)"
  by (simp add: ends_number_def newline_indent_def)

lemma ends_number_comma: "ends_number (CHR '','' # s)"
  by (simp add: ends_number_def)

definition starts_value :: "string \<Rightarrow> bool" where
  "starts_value s = (case s of [] \<Rightarrow> False | c # _ \<Rightarrow> \<not> json_ws c \<and> c \<noteq> CHR '']'')"

lemma starts_valueE:
  assumes "starts_value s"
  obtains c cs where "s = c # cs" "\<not> json_ws c" "c \<noteq> CHR '']''"
  using assms by (cases s) (auto simp: starts_value_def)

lemma starts_value_append: "starts_value s \<Longrightarrow> starts_value (s @ t)"
  by (cases s) (auto simp: starts_value_def)

lemma starts_value_iterencode: "starts_value (iterencode sk lvl j)"
proof (cases j)
  case (JInt i)
  obtain d ds where "show_int i = d # ds" "isdecimal d \<or> d = CHR ''-''"
    using show_int_first by blast
  then show ?thesis
    using JInt by (auto simp: starts_value_def json_ws_def isdecimal_def)
qed (auto simp: starts_value_def json_ws_def encode_string_def)

lemma starts_value_join:
  "xs \<noteq> [] \<Longrightarrow> starts_value (hd xs) \<Longrightarrow> starts_value (join sep xs)"
proof (cases xs)
  case Nil
  then show "xs \<noteq> [] \<Longrightarrow> starts_value (hd xs) \<Longrightarrow> starts_value (join sep xs)" by simp
next
  case (Cons x xs')
  then show "xs \<noteq> [] \<Longrightarrow> starts_value (hd xs) \<Longrightarrow> starts_value (join sep xs)"
    by (cases xs') (auto simp: starts_value_append)
qed

lemma parse_elems_step:
  assumes "parse_value s = Ok (v, rest)" and "length rest < length s" and "skip_ws rest = d # r"
  shows "parse_elems acc s =
           (if d = CHR '']'' then Ok (JArr (acc @ [v]), r)
            else if d = CHR '','' then parse_elems (acc @ [v]) (skip_ws r)
            else JSONDecodeError)"
  using assms by (subst parse_elems.simps) simp

lemma parse_elems_join:
  assumes "\<And>x rest. x \<in> set xs \<Longrightarrow> ends_number rest \<Longrightarrow>
             parse_value (iterencode False (Suc lvl) x @ rest) = Ok (x, rest)"
    and "xs \<noteq> []"
  shows "parse_elems acc
           (join ('','' @ newline_indent (Suc lvl)) (map (iterencode False (Suc lvl)) xs)
              @ newline_indent lvl @ '']'' @ rest)
         = Ok (JArr (acc @ xs), rest)"
  using assms
proof (induction xs arbitrary: acc)
  case Nil
  then show ?case by simp
next
  case (Cons x xs)
  let ?enc = "iterencode False (Suc lvl)"
  let ?sep = "'','' @ newline_indent (Suc lvl)"
  have ne: "?enc x \<noteq> []"
    using starts_value_iterencode [of False "Suc lvl" x] by (auto simp: starts_value_def)
  show ?case
  proof (cases xs)
    case Nil
    let ?tail = "newline_indent lvl @ '']'' @ rest"
    have pv: "parse_value (?enc x @ ?tail) = Ok (x, ?tail)"
      by (rule Cons.prems(1)) (simp_all add: ends_number_indent)
    have len: "length ?tail < length (?enc x @ ?tail)" using ne by simp
    have sk: "skip_ws ?tail = CHR '']'' # rest"
      using skip_ws_indent [of "CHR '']''" lvl rest] by (simp add: json_ws_def)
    have "parse_elems acc (?enc x @ ?tail) = Ok (JArr (acc @ [x]), rest)"
      using parse_elems_step [OF pv len sk] by simp
    then show ?thesis by (simp add: Nil)
  next
    case (Cons y ys)
    let ?more = "join ?sep (map ?enc (y # ys)) @ newline_indent lvl @ '']'' @ rest"
    let ?tail = "CHR '','' # newline_indent (Suc lvl) @ ?more"
    have pv: "parse_value (?enc x @ ?tail) = Ok (x, ?tail)"
      by (rule Cons.prems(1)) (simp_all add: ends_number_comma)
    have len: "length ?tail < length (?enc x @ ?tail)" using ne by simp
    have sk: "skip_ws ?tail = ?tail" by (rule skip_ws_nonws) (simp add: json_ws_def)
    have "starts_value ?more"
      by (intro starts_value_append starts_value_join) (simp_all add: starts_value_iterencode)
    then obtain c cs where more: "?more = c # cs" and c: "\<not> json_ws c"
      by (rule starts_valueE)
    have sk2: "skip_ws (newline_indent (Suc lvl) @ ?more) = ?more"
      unfolding more using c by (rule skip_ws_indent)
    have ih: "parse_elems (acc @ [x]) ?more = Ok (JArr ((acc @ [x]) @ xs), rest)"
      unfolding Cons [symmetric]
      by (rule Cons.IH) (use Cons.prems(1) Cons in auto)
    have "parse_elems acc (?enc x @ ?tail) = parse_elems (acc @ [x]) ?more"
      using parse_elems_step [OF pv len sk] by (simp only: sk2) simp
    with ih show ?thesis by (simp add: Cons)
  qed
qed


lemma parse_members_step:
  assumes "scanstring [] s = Ok (key, after_key)"
    and "skip_ws after_key = CHR '':'' # past_colon"
    and "length past_colon < length s"
    and "parse_value (skip_ws past_colon) = Ok (v, rest)"
    and "length rest < length s"
    and "skip_ws rest = d # r"
  shows "parse_members acc s =
           (if d = CHR ''}'' then Ok (JObj (dict_of (acc @ [(key, v)])), r)
            else if d = CHR '','' then
              (case skip_ws r of
                 [] \<Rightarrow> JSONDecodeError
               | q # r' \<Rightarrow>
                   if q = CHR 0x22 then parse_members (acc @ [(key, v)]) r' else JSONDecodeError)
            else JSONDecodeError)"
  using assms by (subst parse_members.simps) simp

definition member_text :: "nat \<Rightarrow> string \<times> json \<Rightarrow> string" where
  "member_text lvl = (\<lambda>(k, v). encode_string k @ '': '' @ iterencode False (Suc lvl) v)"

lemma member_text_quote: "\<exists>t. member_text lvl kv = CHR 0x22 # t"
  by (cases kv) (simp add: member_text_def encode_string_def)

lemma join_quote:
  assumes "kvs \<noteq> []"
  shows "\<exists>t. join sep (map (member_text lvl) kvs) @ u = CHR 0x22 # t"
proof (cases kvs)
  case Nil
  with assms show ?thesis by simp
next
  case (Cons kv kvs')
  obtain t where "member_text lvl kv = CHR 0x22 # t" using member_text_quote by blast
  then show ?thesis using Cons by (cases kvs') auto
qed

lemma parse_members_join:
  assumes "\<And>k v rest. (k, v) \<in> set kvs \<Longrightarrow> ends_number rest \<Longrightarrow>
             parse_value (iterencode False (Suc lvl) v @ rest) = Ok (v, rest)"
    and "kvs \<noteq> []"
  shows "parse_members acc
           (tl (join ('','' @ newline_indent (Suc lvl)) (map (member_text lvl) kvs)
              @ newline_indent lvl @ ''}'' @ rest))
         = Ok (JObj (dict_of (acc @ kvs)), rest)"
  using assms
proof (induction kvs arbitrary: acc)
  case Nil
  then show ?case by simp
next
  case (Cons kv kvs)
  obtain k v where kv: "kv = (k, v)" by (cases kv)
  let ?enc = "iterencode False (Suc lvl)"
  let ?sep = "'','' @ newline_indent (Suc lvl)"
  obtain c cs where enc: "?enc v = c # cs" and c: "\<not> json_ws c"
    using starts_value_iterencode [of False "Suc lvl" v] by (rule starts_valueE)
  have step: "parse_members acc (concat (map escape_char k) @ CHR 0x22 # CHR '':'' # CHR '' '' # ?enc v @ tail)
      = (if d = CHR ''}'' then Ok (JObj (dict_of (acc @ [(k, v)])), r)
            else if d = CHR '','' then
              (case skip_ws r of
                 [] \<Rightarrow> JSONDecodeError
               | q # r' \<Rightarrow>
                   if q = CHR 0x22 then parse_members (acc @ [(k, v)]) r' else JSONDecodeError)
            else JSONDecodeError)"
    if tail: "ends_number tail" "skip_ws tail = d # r" for tail d r
  proof (rule parse_members_step [OF _ _ _ _ _ tail(2)])
    show "scanstring [] (concat (map escape_char k) @ CHR 0x22 # CHR '':'' # CHR '' '' # ?enc v @ tail)
        = Ok (k, CHR '':'' # CHR '' '' # ?enc v @ tail)"
      using scanstring_encoded [of "[]" k] by simp
    show "skip_ws (CHR '':'' # CHR '' '' # ?enc v @ tail) = CHR '':'' # CHR '' '' # ?enc v @ tail"
      by (rule skip_ws_nonws) (simp add: json_ws_def)
    show "length (CHR '' '' # ?enc v @ tail)
        < length (concat (map escape_char k) @ CHR 0x22 # CHR '':'' # CHR '' '' # ?enc v @ tail)"
      by simp
    have "skip_ws (CHR '' '' # ?enc v @ tail) = ?enc v @ tail"
      using skip_ws_space [OF c, of "cs @ tail"] by (simp add: enc)
    then show "parse_value (skip_ws (CHR '' '' # ?enc v @ tail)) = Ok (v, tail)"
      using Cons.prems(1) [of k v tail] tail(1) by (simp add: kv)
    show "length tail
        < length (concat (map escape_char k) @ CHR 0x22 # CHR '':'' # CHR '' '' # ?enc v @ tail)"
      by simp
  qed
  show ?case
  proof (cases kvs)
    case Nil
    let ?tail = "newline_indent lvl @ ''}'' @ rest"
    have sk: "skip_ws ?tail = CHR ''}'' # rest"
      using skip_ws_indent [of "CHR ''}''" lvl rest] by (simp add: json_ws_def)
    have "parse_members acc (concat (map escape_char k) @ CHR 0x22 # CHR '':'' # CHR '' '' # ?enc v @ ?tail)
        = Ok (JObj (dict_of (acc @ [(k, v)])), rest)"
      using step [OF ends_number_indent sk] by simp
    then show ?thesis by (simp add: Nil kv member_text_def encode_string_def)
  next
    case (Cons kv' kvs')
    let ?more = "join ?sep (map (member_text lvl) (kv' # kvs')) @ newline_indent lvl @ ''}'' @ rest"
    let ?tail = "CHR '','' # newline_indent (Suc lvl) @ ?more"
    obtain t where more: "?more = CHR 0x22 # t"
      using join_quote [of "kv' # kvs'" ?sep lvl "newline_indent lvl @ ''}'' @ rest"] by auto
    have sk: "skip_ws ?tail = CHR '','' # newline_indent (Suc lvl) @ ?more"
      by (rule skip_ws_nonws) (simp add: json_ws_def)
    have sk2: "skip_ws (newline_indent (Suc lvl) @ ?more) = CHR 0x22 # t"
      unfolding more by (rule skip_ws_indent) (simp add: json_ws_def)
    have ih: "parse_members (acc @ [(k, v)]) (tl ?more) = Ok (JObj (dict_of ((acc @ [(k, v)]) @ kvs)), rest)"
      unfolding Cons [symmetric]
      by (rule Cons.IH) (use Cons.prems(1) Cons in auto)
    have "parse_members acc (concat (map escape_char k) @ CHR 0x22 # CHR '':'' # CHR '' '' # ?enc v @ ?tail)
        = parse_members (acc @ [(k, v)]) t"
      using step [OF ends_number_comma sk] by (simp only: sk2) simp
    also have "\<dots> = Ok (JObj (dict_of ((acc @ [(k, v)]) @ kvs)), rest)"
      using ih by (simp only: more list.sel)
    finally show ?thesis by (simp add: Cons kv member_text_def encode_string_def)
  qed
qed


lemma update_fresh: "k \<notin> fst ` set d \<Longrightarrow> AList.update k v d = d @ [(k, v)]"
  by (induction d) auto

lemma foldl_update_distinct:
  "distinct (map fst (d @ kvs)) \<Longrightarrow>
     foldl (\<lambda>d (k, v). AList.update k v d) d kvs = d @ kvs"
proof (induction kvs arbitrary: d)
  case Nil
  show ?case by simp
next
  case (Cons kv kvs)
  obtain k v where kv: "kv = (k, v)" by (cases kv)
  have fresh: "k \<notin> fst ` set d" using Cons.prems by (auto simp: kv)
  have "distinct (map fst ((d @ [(k, v)]) @ kvs))" using Cons.prems by (simp add: kv)
  from Cons.IH [OF this] show ?case by (simp add: kv update_fresh [OF fresh])
qed

lemma dict_of_distinct: "distinct (map fst kvs) \<Longrightarrow> dict_of kvs = kvs"
  using foldl_update_distinct [of "[]" kvs] by (simp add: dict_of_def)

lemma parse_value_array:
  "skip_ws cs = d # r \<Longrightarrow> d \<noteq> CHR '']'' \<Longrightarrow>
     parse_value (CHR ''['' # cs) = parse_elems [] (d # r)"
  by (subst parse_value.simps) simp

lemma parse_value_object:
  "skip_ws cs = CHR 0x22 # r \<Longrightarrow> parse_value (CHR ''{'' # cs) = parse_members [] r"
  by (subst parse_value.simps) simp

lemma parse_iterencode:
  "distinct_keys j \<Longrightarrow> ends_number rest \<Longrightarrow>
     parse_value (iterencode False lvl j @ rest) = Ok (j, rest)"
proof (induction j arbitrary: lvl rest)
  case JNull
  show ?case by (simp add: parse_value.simps startswith_def)
next
  case (JBool b)
  show ?case by (simp add: parse_value.simps startswith_def)
next
  case (JInt i)
  then show ?case by (simp add: parse_value_int)
next
  case (JStr s)
  show ?case by (simp add: parse_value_string)
next
  case (JArr xs)
  show ?case
  proof (cases "xs = []")
    case True
    have "skip_ws (CHR '']'' # rest) = CHR '']'' # rest"
      by (rule skip_ws_nonws) (simp add: json_ws_def)
    then show ?thesis using True by (simp add: parse_value.simps)
  next
    case False
    let ?body = "join ('','' @ newline_indent (Suc lvl)) (map (iterencode False (Suc lvl)) xs)
              @ newline_indent lvl @ '']'' @ rest"
    have "starts_value ?body"
      by (intro starts_value_append starts_value_join)
        (use False in \<open>simp_all add: starts_value_iterencode hd_map\<close>)
    then obtain c cs where body: "?body = c # cs" and c: "\<not> json_ws c" "c \<noteq> CHR '']''"
      by (rule starts_valueE)
    have sk: "skip_ws (newline_indent (Suc lvl) @ ?body) = c # cs"
      unfolding body using c(1) by (rule skip_ws_indent)
    have el: "parse_elems [] ?body = Ok (JArr ([] @ xs), rest)"
    proof (rule parse_elems_join [OF _ False])
      fix x rest'
      assume "x \<in> set xs" "ends_number rest'"
      then show "parse_value (iterencode False (Suc lvl) x @ rest') = Ok (x, rest')"
        using JArr.IH [of x rest' "Suc lvl"] JArr.prems(1) by (simp add: list_all_iff)
    qed
    have "parse_value (CHR ''['' # newline_indent (Suc lvl) @ ?body) = parse_elems [] (c # cs)"
      using sk c(2) by (rule parse_value_array)
    with el body have "parse_value (CHR ''['' # newline_indent (Suc lvl) @ ?body) = Ok (JArr xs, rest)"
      by simp
    then show ?thesis using False by simp
  qed
next
  case (JObj kvs)
  show ?case
  proof (cases "kvs = []")
    case True
    have "skip_ws (CHR ''}'' # rest) = CHR ''}'' # rest"
      by (rule skip_ws_nonws) (simp add: json_ws_def)
    then show ?thesis using True by (simp add: parse_value.simps)
  next
    case False
    let ?body = "join ('','' @ newline_indent (Suc lvl)) (map (member_text lvl) kvs)
              @ newline_indent lvl @ ''}'' @ rest"
    obtain t where body: "?body = CHR 0x22 # t"
      using join_quote [OF False, of "'','' @ newline_indent (Suc lvl)" lvl
          "newline_indent lvl @ ''}'' @ rest"] by auto
    have sk: "skip_ws (newline_indent (Suc lvl) @ ?body) = CHR 0x22 # t"
      unfolding body by (rule skip_ws_indent) (simp add: json_ws_def)
    have dk: "dict_of kvs = kvs" using JObj.prems(1) by (simp add: dict_of_distinct)
    have "parse_members [] (tl ?body) = Ok (JObj (dict_of ([] @ kvs)), rest)"
    proof (rule parse_members_join [OF _ False])
      fix k v rest'
      assume "(k, v) \<in> set kvs" "ends_number rest'"
      then show "parse_value (iterencode False (Suc lvl) v @ rest') = Ok (v, rest')"
        using JObj.IH [of "(k, v)" v rest' "Suc lvl"] JObj.prems(1)
        by (force simp: list_all_iff)
    qed
    then have mem: "parse_members [] t = Ok (JObj kvs, rest)"
      by (simp only: body list.sel append_Nil dk)
    have "parse_value (CHR ''{'' # newline_indent (Suc lvl) @ ?body) = parse_members [] t"
      using sk by (rule parse_value_object)
    with mem have "parse_value (CHR ''{'' # newline_indent (Suc lvl) @ ?body) = Ok (JObj kvs, rest)"
      by simp
    moreover have "(\<lambda>(k, v). encode_string k @ '': '' @ iterencode False (Suc lvl) v) = member_text lvl"
      by (simp add: member_text_def)
    ultimately show ?thesis using False by simp
  qed
qed

lemma loads_dumps:
  assumes "distinct_keys j"
  shows "loads (dumps False j @ [CHR 0x0A]) = Ok j"
proof -
  obtain c cs where enc: "iterencode False 0 j = c # cs" and c: "\<not> json_ws c"
    using starts_value_iterencode [of False 0 j] by (rule starts_valueE)
  have sk: "skip_ws (iterencode False 0 j @ [CHR 0x0A]) = iterencode False 0 j @ [CHR 0x0A]"
    using skip_ws_nonws [OF c, of "cs @ [CHR 0x0A]"] by (simp add: enc)
  have pv: "parse_value (iterencode False 0 j @ [CHR 0x0A]) = Ok (j, [CHR 0x0A])"
    by (rule parse_iterencode [OF assms]) (simp add: ends_number_def)
  have "skip_ws [CHR 0x0A] = []" by (simp add: skip_ws_def json_ws_def)
  then show ?thesis by (simp add: loads_def dumps_def sk pv)
qed

subsection \<open>The decoder returns such values\<close>

lemma set_update_subset: "x \<in> set (AList.update k v al) \<Longrightarrow> x = (k, v) \<or> x \<in> set al"
  by (induction al) (auto split: if_splits)

lemma foldl_update_inv:
  assumes "distinct (map fst d)" and "list_all P (map snd d)" and "list_all P (map snd pairs)"
  shows "distinct (map fst (foldl (\<lambda>d (k, v). AList.update k v d) d pairs))
       \<and> list_all P (map snd (foldl (\<lambda>d (k, v). AList.update k v d) d pairs))"
  using assms
proof (induction pairs arbitrary: d)
  case Nil
  then show ?case by simp
next
  case (Cons kv pairs)
  obtain k v where kv: "kv = (k, v)" by (cases kv)
  have 1: "distinct (map fst (AList.update k v d))"
    using Cons.prems(1) by (rule distinct_update)
  have 2: "list_all P (map snd (AList.update k v d))"
    using Cons.prems(2,3) set_update_subset [of _ k v d] by (fastforce simp: list_all_iff kv)
  have 3: "list_all P (map snd pairs)" using Cons.prems(3) by simp
  from Cons.IH [OF 1 2 3] show ?case by (simp add: kv)
qed

lemma distinct_keys_dict_of:
  "list_all distinct_keys (map snd pairs) \<Longrightarrow> distinct_keys (JObj (dict_of pairs))"
  using foldl_update_inv [of "[]" distinct_keys pairs] by (simp add: dict_of_def)

lemma parse_distinct_keys:
  "parse_value s = Ok (j, r) \<Longrightarrow> distinct_keys j"
  "parse_elems accx s1 = Ok (j1, r1) \<Longrightarrow> list_all distinct_keys accx \<Longrightarrow> distinct_keys j1"
  "parse_members accm s2 = Ok (j2, r2) \<Longrightarrow> list_all distinct_keys (map snd accm) \<Longrightarrow> distinct_keys j2"
proof (induction s and accx s1 and accm s2 arbitrary: j r and j1 r1 and j2 r2
    rule: parse_value_parse_elems_parse_members.induct)
  case (1 s)
  from "1.prems" show ?case
    apply (subst (asm) parse_value.simps)
    apply (auto split: list.splits if_splits result.splits option.splits prod.splits
        dest: "1.IH"(1) "1.IH"(2))
    done
next
  case (2 acc s)
  from "2.prems"(1) obtain v rest where pv: "parse_value s = Ok (v, rest)"
    by (subst (asm) parse_elems.simps) (auto split: result.splits)
  have dv: "distinct_keys v" using "2.IH"(1) [OF pv] .
  from "2.prems"(1) pv have len: "length rest < length s"
    by (subst (asm) parse_elems.simps) (auto split: if_splits)
  from "2.prems"(1) pv len obtain d r' where sk: "skip_ws rest = d # r'"
    by (subst (asm) parse_elems.simps) (auto split: list.splits)
  show ?case
  proof (cases "d = CHR '']''")
    case True
    with "2.prems"(1) pv len sk have "j1 = JArr (acc @ [v])"
      by (subst (asm) parse_elems.simps) simp
    with "2.prems"(2) dv show ?thesis by simp
  next
    case False
    with "2.prems"(1) pv len sk have c: "d = CHR '',''"
      and rec: "parse_elems (acc @ [v]) (skip_ws r') = Ok (j1, r1)"
      by (subst (asm) parse_elems.simps; simp split: if_splits)+
    show ?thesis
      by (rule "2.IH"(2) [OF pv refl len sk False c rec]) (use "2.prems"(2) dv in simp)
  qed
next
  case (3 acc s)
  from "3.prems"(1) obtain key after_key where sc: "scanstring [] s = Ok (key, after_key)"
    by (subst (asm) parse_members.simps) (auto split: result.splits)
  from "3.prems"(1) sc obtain colon past_colon where sk1: "skip_ws after_key = colon # past_colon"
    by (subst (asm) parse_members.simps) (auto split: list.splits)
  from "3.prems"(1) sc sk1 have col: "colon = CHR '':'' \<and> length past_colon < length s"
    by (subst (asm) parse_members.simps) (auto split: if_splits)
  from "3.prems"(1) sc sk1 col obtain v rest where pv: "parse_value (skip_ws past_colon) = Ok (v, rest)"
    by (subst (asm) parse_members.simps) (auto split: result.splits)
  have dv: "distinct_keys v" using "3.IH"(1) [OF sc refl sk1 col pv] .
  from "3.prems"(1) sc sk1 col pv have len: "length rest < length s"
    by (subst (asm) parse_members.simps) (auto split: if_splits)
  from "3.prems"(1) sc sk1 col pv len obtain d r' where sk: "skip_ws rest = d # r'"
    by (subst (asm) parse_members.simps) (auto split: list.splits)
  have ok: "list_all distinct_keys (map snd (acc @ [(key, v)]))"
    using "3.prems"(2) dv by simp
  show ?case
  proof (cases "d = CHR ''}''")
    case True
    with "3.prems"(1) sc sk1 col pv len sk have "j2 = JObj (dict_of (acc @ [(key, v)]))"
      by (subst (asm) parse_members.simps) simp
    with ok show ?thesis by (simp only: distinct_keys_dict_of)
  next
    case False
    with "3.prems"(1) sc sk1 col pv len sk have c: "d = CHR '',''"
      by (subst (asm) parse_members.simps) (simp split: if_splits)
    from "3.prems"(1) sc sk1 col pv len sk False c obtain q r'' where sk2: "skip_ws r' = q # r''"
      by (subst (asm) parse_members.simps) (auto split: list.splits)
    from "3.prems"(1) sc sk1 col pv len sk False c sk2 have q: "q = CHR 0x22"
      and rec: "parse_members (acc @ [(key, v)]) r'' = Ok (j2, r2)"
      by (subst (asm) parse_members.simps; simp split: if_splits)+
    show ?thesis
      by (rule "3.IH"(2) [OF sc refl sk1 col pv refl len sk False c sk2 q rec]) (rule ok)
  qed
qed

lemma loads_distinct_keys: "loads s = Ok j \<Longrightarrow> distinct_keys j"
  by (auto simp: loads_def split: result.splits if_splits dest: parse_distinct_keys(1))

section \<open>update\_context.py\<close>

subsection \<open>Lines, time stamps, the two files\<close>

definition linebreak :: "char \<Rightarrow> bool" where
  \<comment> \<open>The line boundaries of \<open>str.splitlines\<close> below 256, \<open>\r\n\<close> apart.\<close>
  "linebreak c = ((of_char c :: nat) \<in> set [10, 11, 12, 13, 28, 29, 30, 133])"

fun splitlines_aux :: "string \<Rightarrow> string \<Rightarrow> string list" where
  \<comment> \<open>The first argument is the line being read, reversed.\<close>
  "splitlines_aux cur [] = (if cur = [] then [] else [rev cur])"
| "splitlines_aux cur (c # cs) =
     (if c = CHR 0x0D then
        (case cs of
           [] \<Rightarrow> [rev (c # cur)]
         | d # ds \<Rightarrow>
             if d = CHR 0x0A then rev (d # c # cur) # splitlines_aux [] ds
             else rev (c # cur) # splitlines_aux [] cs)
      else if linebreak c then rev (c # cur) # splitlines_aux [] cs
      else splitlines_aux (c # cur) cs)"

definition splitlines :: "string \<Rightarrow> string list" where
  \<comment> \<open>\<open>s.splitlines(keepends=True)\<close>\<close>
  "splitlines s = splitlines_aux [] s"

record datetime =
  year :: nat
  month :: nat
  day :: nat
  hour :: nat
  minute :: nat
  second :: nat

definition zero_pad :: "nat \<Rightarrow> nat \<Rightarrow> string" where
  "zero_pad width n = replicate (width - length (show_nat n)) (CHR ''0'') @ show_nat n"

definition strftime :: "datetime \<Rightarrow> string" where
  \<comment> \<open>\<open>now.strftime("%Y-%m-%d %H:%M:%S")\<close>\<close>
  "strftime t =
     zero_pad 4 (year t) @ ''-'' @ zero_pad 2 (month t) @ ''-'' @ zero_pad 2 (day t) @ '' ''
       @ zero_pad 2 (hour t) @ '':'' @ zero_pad 2 (minute t) @ '':'' @ zero_pad 2 (second t)"

text \<open>
  The two files the script touches: \<open>CONTEXT_FILE\<close>, the document store, and
  \<open>CHANGELOG_FILE\<close>, the audit log.  \<open>None\<close> is a file that does not exist.  Writes are
  taken to succeed.
\<close>

record files =
  context_file :: "string option"
  changelog_file :: "string option"

datatype effect =
    Mkdir_changelog_parent
  | Append_changelog string
  | Write_context string

datatype message =
    Error_no_content
  | Error_invalid_json
  | Warning_current_invalid
  | No_changes_detected
  | Updated
  | Line_counts nat nat
  | Diff_appended

definition on_stderr :: "message \<Rightarrow> bool" where
  \<comment> \<open>The messages printed with \<open>file=sys.stderr\<close>:
      \<open>ERROR: No content provided on stdin\<close>, \<open>ERROR: Invalid JSON in new content: ...\<close> and
      \<open>WARNING: Current context file is invalid JSON, will be overwritten\<close>.  The others go to
      the standard output: \<open>No changes detected\<close>, \<open>Updated ...\<close>, \<open>+A -D lines\<close>,
      \<open>Diff appended to ...\<close>.\<close>
  "on_stderr m = (m = Error_no_content \<or> m = Error_invalid_json \<or> m = Warning_current_invalid)"

record outcome =
  exit_status :: nat
  printed :: "message list"
  effects :: "effect list"
  files_after :: files

subsection \<open>\<open>main\<close>\<close>

definition read_current :: "files \<Rightarrow> (json \<times> message list) option" where
  \<comment> \<open>The current document, and the warning when it is not JSON; \<open>None\<close> when the stored
      text holds a value outside this model.\<close>
  "read_current fs =
     (case context_file fs of
        None \<Rightarrow> Some (JObj [], [])
      | Some old_content \<Rightarrow>
          (case loads old_content of
             Ok old_json \<Rightarrow> Some (old_json, [])
           | JSONDecodeError \<Rightarrow> Some (JObj [], [Warning_current_invalid])
           | Unsupported \<Rightarrow> None))"

definition formatted :: "json \<Rightarrow> string" where
  \<comment> \<open>\<open>json.dumps(j, indent=2, sort_keys=True) + "\n"\<close>\<close>
  "formatted j = dumps True j @ [CHR 0x0A]"

definition diff_lines_of :: "json \<Rightarrow> json \<Rightarrow> string list" where
  "diff_lines_of old_json new_json =
     unified_diff (splitlines (formatted old_json)) (splitlines (formatted new_json))
       ''claude_context.json.old'' ''claude_context.json.new'' ''''"

definition separator :: string where
  "separator = replicate 60 (CHR ''='')"

definition changelog_entry :: "string \<Rightarrow> string list \<Rightarrow> string" where
  "changelog_entry timestamp diff_lines =
     [CHR 0x0A] @ separator @ [CHR 0x0A] @ ''# '' @ timestamp @ [CHR 0x0A] @ separator @ [CHR 0x0A]
       @ concat diff_lines @ [CHR 0x0A]"

definition appended :: "string option \<Rightarrow> string \<Rightarrow> string" where
  \<comment> \<open>The file after \<open>open(path, 'a')\<close> and a \<open>write\<close>.\<close>
  "appended file text = (case file of None \<Rightarrow> text | Some old \<Rightarrow> old @ text)"

definition count_marked :: "char \<Rightarrow> string list \<Rightarrow> nat" where
  \<comment> \<open>\<open>sum(1 for line in diff_lines if line.startswith(c) and not line.startswith(c * 3))\<close>\<close>
  "count_marked c ls = length (filter (\<lambda>l. startswith l [c] \<and> \<not> startswith l [c, c, c]) ls)"

definition main :: "string \<Rightarrow> datetime \<Rightarrow> files \<Rightarrow> outcome option" where
  \<comment> \<open>The arguments are what \<open>sys.stdin.read()\<close> and \<open>datetime.now()\<close> return, and the files
      before the call.  \<open>None\<close>: a text outside the model of \<open>json\<close> was read.\<close>
  "main stdin now fs =
     (let new_content = strip stdin in
      if new_content = [] then
        Some \<lparr>exit_status = 1, printed = [Error_no_content], effects = [], files_after = fs\<rparr>
      else
        case loads new_content of
          JSONDecodeError \<Rightarrow>
            Some \<lparr>exit_status = 1, printed = [Error_invalid_json], effects = [], files_after = fs\<rparr>
        | Unsupported \<Rightarrow> None
        | Ok new_json \<Rightarrow>
            (case read_current fs of
               None \<Rightarrow> None
             | Some (old_json, warnings) \<Rightarrow>
                 let diff_lines = diff_lines_of old_json new_json in
                 if diff_lines = [] then
                   Some \<lparr>exit_status = 0, printed = warnings @ [No_changes_detected], effects = [],
                         files_after = fs\<rparr>
                 else
                   let entry = changelog_entry (strftime now) diff_lines;
                       written = dumps False new_json @ [CHR 0x0A]
                   in Some \<lparr>exit_status = 0,
                            printed = warnings @ [Updated,
                              Line_counts (count_marked (CHR ''+'') diff_lines)
                                          (count_marked (CHR ''-'') diff_lines),
                              Diff_appended],
                            effects = [Mkdir_changelog_parent, Append_changelog entry,
                                       Write_context written],
                            files_after = \<lparr>context_file = Some written,
                              changelog_file = Some (appended (changelog_file fs) entry)\<rparr>\<rparr>))"

section \<open>Documents with the same content\<close>

text \<open>
  Two documents have the same key/value content when they are equal as Python compares
  them, \<open>True == 1\<close> apart: scalars are the same scalar, arrays have the same length and the same
  content place by place, objects have the same keys and under each key the same content.
  The order of an object's members plays no part.
\<close>

fun same_content :: "json \<Rightarrow> json \<Rightarrow> bool" where
  "same_content (JArr xs) (JArr ys) = list_all2 same_content xs ys"
| "same_content (JObj kvs) (JObj lws) =
     (set (map fst kvs) = set (map fst lws) \<and>
      list_all (\<lambda>(k, v). case map_of lws k of None \<Rightarrow> False | Some w \<Rightarrow> same_content v w) kvs)"
| "same_content (JArr xs) j = False"
| "same_content (JObj kvs) j = False"
| "same_content i j = (i = j)"

subsection \<open>The canonical text does not depend on the order of the keys\<close>

lemma sorted_keys_unique:
  assumes "distinct (map fst kvs)" and "distinct (map fst lws)"
    and "set (map fst kvs) = set (map fst lws)"
  shows "map fst (sort_key fst kvs) = map fst (sort_key fst lws)"
proof (rule sorted_distinct_set_unique)
  show "sorted (map fst (sort_key fst kvs))" "sorted (map fst (sort_key fst lws))"
    by (rule sorted_sort_key)+
  show "distinct (map fst (sort_key fst kvs))"
    using assms(1) by (simp add: distinct_map)
  show "distinct (map fst (sort_key fst lws))"
    using assms(2) by (simp add: distinct_map)
  show "set (map fst (sort_key fst kvs)) = set (map fst (sort_key fst lws))"
    using assms(3) by simp
qed

lemma iterencode_same_content:
  "distinct_keys j1 \<Longrightarrow> distinct_keys j2 \<Longrightarrow> same_content j1 j2 \<Longrightarrow>
     iterencode True lvl j1 = iterencode True lvl j2"
proof (induction j1 arbitrary: j2 lvl)
  case JNull
  then show ?case by simp
next
  case (JBool b)
  then show ?case by simp
next
  case (JInt i)
  then show ?case by simp
next
  case (JStr s)
  then show ?case by simp
next
  case (JArr xs)
  from JArr.prems(3) obtain ys where j2: "j2 = JArr ys" and rel: "list_all2 same_content xs ys"
    by (cases j2) auto
  have "map (iterencode True (Suc lvl)) xs = map (iterencode True (Suc lvl)) ys"
  proof (rule nth_equalityI)
    show "length (map (iterencode True (Suc lvl)) xs) = length (map (iterencode True (Suc lvl)) ys)"
      using rel by (simp add: list_all2_lengthD)
    fix i
    assume "i < length (map (iterencode True (Suc lvl)) xs)"
    then have i: "i < length xs" "i < length ys" using rel by (simp_all add: list_all2_lengthD)
    have "iterencode True (Suc lvl) (xs ! i) = iterencode True (Suc lvl) (ys ! i)"
    proof (rule JArr.IH)
      show "xs ! i \<in> set xs" using i by simp
      show "distinct_keys (xs ! i)" using JArr.prems(1) i by (simp add: list_all_length)
      show "distinct_keys (ys ! i)" using JArr.prems(2) i by (simp add: j2 list_all_length)
      show "same_content (xs ! i) (ys ! i)" using rel i by (simp add: list_all2_nthD)
    qed
    with i show "map (iterencode True (Suc lvl)) xs ! i = map (iterencode True (Suc lvl)) ys ! i"
      by simp
  qed
  moreover have "xs = [] \<longleftrightarrow> ys = []" using rel by (auto simp: list_all2_Nil list_all2_Nil2)
  ultimately show ?case by (simp add: j2)
next
  case (JObj kvs)
  from JObj.prems(3) obtain lws where j2: "j2 = JObj lws"
    and keys: "set (map fst kvs) = set (map fst lws)"
    and vals: "list_all (\<lambda>(k, v). case map_of lws k of None \<Rightarrow> False | Some w \<Rightarrow> same_content v w) kvs"
    by (cases j2) auto
  have dk: "distinct (map fst kvs)" and dl: "distinct (map fst lws)"
    using JObj.prems(1,2) by (simp_all add: j2)
  let ?f = "\<lambda>(k, v). encode_string k @ '': '' @ iterencode True (Suc lvl) v"
  let ?skv = "sort_key fst kvs" and ?slw = "sort_key fst lws"
  have sk: "map fst ?skv = map fst ?slw" using dk dl keys by (rule sorted_keys_unique)
  then have len: "length ?skv = length ?slw" by (rule map_eq_imp_length_eq)
  have "map ?f ?skv = map ?f ?slw"
  proof (rule nth_equalityI)
    show "length (map ?f ?skv) = length (map ?f ?slw)" using len by simp
    fix i
    assume "i < length (map ?f ?skv)"
    then have i: "i < length ?skv" "i < length ?slw" using len by simp_all
    obtain k v where kv: "?skv ! i = (k, v)" by (cases "?skv ! i")
    obtain k' w where lw: "?slw ! i = (k', w)" by (cases "?slw ! i")
    have "map fst ?skv ! i = map fst ?slw ! i" using sk by simp
    with i kv lw have k: "k' = k" by simp
    have inkv: "(k, v) \<in> set kvs" using nth_mem [OF i(1)] kv by simp
    have inlw: "(k, w) \<in> set lws" using nth_mem [OF i(2)] lw k by simp
    have mo: "map_of lws k = Some w" using dl inlw by simp
    have sc: "same_content v w" using vals inkv mo by (auto simp: list_all_iff)
    have "iterencode True (Suc lvl) v = iterencode True (Suc lvl) w"
    proof (rule JObj.IH [OF inkv])
      show "v \<in> Basic_BNFs.snds (k, v)" by simp
      show "distinct_keys v" using JObj.prems(1) inkv by (force simp: list_all_iff)
      show "distinct_keys w" using JObj.prems(2) inlw by (force simp: j2 list_all_iff)
      show "same_content v w" by (rule sc)
    qed
    with i kv lw k show "map ?f ?skv ! i = map ?f ?slw ! i" by simp
  qed
  moreover have "kvs = [] \<longleftrightarrow> lws = []" using keys by auto
  ultimately show ?case by (simp add: j2)
qed

lemma formatted_same_content:
  "distinct_keys j1 \<Longrightarrow> distinct_keys j2 \<Longrightarrow> same_content j1 j2 \<Longrightarrow> formatted j1 = formatted j2"
  by (simp add: formatted_def dumps_def iterencode_same_content)

subsection \<open>Equal canonical texts, and the store read back\<close>

lemma diff_lines_of_same:
  "formatted old_json = formatted new_json \<Longrightarrow> diff_lines_of old_json new_json = []"
  by (simp add: diff_lines_of_def unified_diff_same)

lemma read_current_distinct_keys:
  "read_current fs = Some (old_json, warnings) \<Longrightarrow> distinct_keys old_json"
  by (auto simp: read_current_def split: option.splits result.splits dest: loads_distinct_keys)

lemma read_current_written:
  "distinct_keys j \<Longrightarrow>
     read_current \<lparr>context_file = Some (dumps False j @ [CHR 0x0A]), changelog_file = log\<rparr>
       = Some (j, [])"
  by (simp add: read_current_def loads_dumps)

section \<open>Concrete hosts\<close>

text \<open>Environments at which the models are evaluated: what the probes print on a host.\<close>

definition probe_output :: "string \<Rightarrow> subprocess" where
  \<comment> \<open>Every probe exits with status 0 and prints the given text.\<close>
  "probe_output s = (\<lambda>c. Inr \<lparr>returncode = 0, stdout = s\<rparr>)"

definition lscpu_not_executable :: subprocess where
  \<comment> \<open>The only \<open>lscpu\<close> on the search path lacks the execute permission.\<close>
  "lscpu_not_executable = (\<lambda>c. Inl PermissionError)"

definition two_a100 :: subprocess where
  \<comment> \<open>A Linux host with two identical NVIDIA cards and an empty bus listing.\<close>
  "two_a100 =
     (\<lambda>c. if c = Argv [''lspci'', ''-nn''] then Inr \<lparr>returncode = 0, stdout = []\<rparr>
          else Inr \<lparr>returncode = 0,
                    stdout = ''0, NVIDIA A100, 40960, 00000000:01:00.0, GPU-aaaa'' @ [CHR 0x0A] @
                             ''1, NVIDIA A100, 40960, 00000000:02:00.0, GPU-bbbb''\<rparr>)"

definition nvidia_smi_only :: "string \<Rightarrow> bool" where
  "nvidia_smi_only name = (name = ''nvidia-smi'')"

definition radeon_listing :: subprocess where
  "radeon_listing =
     probe_output (''VGA: Radeon Pro [1]'' @ [CHR 0x0A] @ ''VGA: Radeon [1]'' @ [CHR 0x0A] @
                   ''VGA: Intel [1]'')"

definition vendor_model :: "gpu \<Rightarrow> string \<times> string" where
  "vendor_model g = (vendor g, model g)"

definition failure :: "exn + 'a \<Rightarrow> exn option" where
  "failure r = (case r of Inl e \<Rightarrow> Some e | Inr _ \<Rightarrow> None)"

definition new_year :: datetime where
  "new_year = \<lparr>year = 2026, month = 1, day = 5, hour = 9, minute = 3, second = 7\<rparr>"

definition no_files :: files where
  \<comment> \<open>Neither the document store nor the audit log exists yet.\<close>
  "no_files = \<lparr>context_file = None, changelog_file = None\<rparr>"

definition two_keys :: files where
  "two_keys = \<lparr>context_file = Some ''{\"a\":1,\"b\":2}'', changelog_file = Some ''earlier''\<rparr>"

definition a_minute_later :: datetime where
  "a_minute_later = \<lparr>year = 2026, month = 1, day = 5, hour = 9, minute = 4, second = 7\<rparr>"

definition b_before_a :: string where
  \<comment> \<open>The document of \<open>two_keys\<close>, its keys the other way round.\<close>
  "b_before_a = ''{\"b\":2,\"a\":1}''"

section \<open>Properties of the scanner\<close>

lemmas text_defs = strip_def isspace_def startswith_def split_ws_def isdecimal_def digit_val_def
lemmas exn_defs = bind_exn_def item_def

subsection \<open>The command executor\<close>

lemma run_command_absorbs:
  assumes "run c = Inl e"
      and "e = TimeoutExpired \<or> e = SubprocessError \<or> e = FileNotFoundError"
  shows "run_command run c = Inr ''''"
  using assms by (auto simp: run_command_def)

lemma run_command_ignores_exit_code:
  "run c = Inr \<lparr>returncode = rc, stdout = out\<rparr> \<Longrightarrow> run_command run c = Inr (strip out)"
  by (simp add: run_command_def)

text \<open>
  Claim C6.  The executor is to absorb every execution error and return the empty string.
  The \<open>except\<close> clause lists \<open>TimeoutExpired\<close>, \<open>SubprocessError\<close> and \<open>FileNotFoundError\<close>
  only: where \<open>subprocess.run\<close> raises \<open>PermissionError\<close> (the program is there but may not
  be executed), the exception leaves \<open>run_command\<close>.
\<close>

theorem run_command_permission_error_propagates:
  "run_command lscpu_not_executable (Argv [''lscpu'']) = Inl PermissionError"
  by (simp add: run_command_def lscpu_not_executable_def)

subsection \<open>The CPU and memory extractors\<close>

lemma cpu_line_returns: "\<exists>st'. cpu_line st line = Inr st'"
proof (cases "cpu_line_body st line")
  case (Inl e)
  have "e = ValueError \<or> e = IndexError"
    using Inl
    by (auto simp: cpu_line_body_def after_colon_field_def bind_exn_def item_def py_int_def Let_def
        split: if_splits sum.splits list.splits option.splits)
  then show ?thesis using Inl by (auto simp: cpu_line_def)
next
  case (Inr a)
  then show ?thesis by (simp add: cpu_line_def)
qed

text \<open>
  Claim C7.  A field that does not parse is to fall back to its default, and the memory
  extractor to return \<open>total_gb = 0\<close> on a malformed \<open>MemTotal\<close> line.  The Linux loop of
  \<open>scan_cpu\<close> catches \<open>ValueError\<close> and \<open>IndexError\<close> (lemma \<open>cpu_line_returns\<close>); the loop of
  \<open>scan_memory\<close> has no handler, and \<open>int\<close> raises through it.
\<close>

theorem scan_memory_malformed_raises:
  "scan_memory ''linux'' (probe_output ''MemTotal: abc kB'') = Inl ValueError"
  by (simp add: scan_memory_def probe_output_def run_command_def py_int_def text_defs exn_defs)

subsection \<open>The aggregator\<close>

text \<open>
  Claim C2, as stated: a failure inside one extractor never aborts the scan.  On a Linux
  host whose \<open>/proc/meminfo\<close> probe prints a \<open>MemTotal:\<close> line without a value the memory
  extractor raises \<open>IndexError\<close>, and \<open>scan_all\<close>, which catches nothing, raises it too.
\<close>

theorem scan_all_aborts:
  "scan_all ''linux'' ''host'' (probe_output ''MemTotal:'')
      (Inr ([] :: gpu list)) (Inr ([] :: unit list)) (Inr ([] :: unit list)) (Inr ([] :: unit list))
     = Inl IndexError"
  by (simp add: scan_all_def scan_cpu_def cpu_line_def cpu_line_body_def scan_memory_def
      probe_output_def run_command_def py_int_def text_defs exn_defs truthy_def)

text \<open>
  Claim C2, amended: \<open>scan_all\<close> returns a snapshot exactly when every extractor returns,
  and the snapshot then holds the eight fields, each extractor's result in its place;
  it raises \<open>e\<close> exactly when \<open>e\<close> is the exception of the first extractor that raises, in
  the order cpu, memory, gpus, storage, network, ssh_keys.
\<close>

theorem scan_all_snapshot_iff:
  "(scan_all p h run g s n k = Inr snap \<longleftrightarrow>
      scan_cpu p run = Inr (cpu snap) \<and> scan_memory p run = Inr (memory snap) \<and>
      g = Inr (gpus snap) \<and> s = Inr (storage snap) \<and> n = Inr (network snap) \<and>
      k = Inr (ssh_keys snap) \<and> platform snap = p \<and> hostname snap = h)
   \<and> (scan_all p h run g s n k = Inl e \<longleftrightarrow>
      first_some [failure (scan_cpu p run), failure (scan_memory p run), failure g,
                  failure s, failure n, failure k] = Some e)"
  by (cases snap) (auto simp: scan_all_def bind_exn_def failure_def split: sum.splits)

theorem scan_all_snapshot_iff_witness:
  "scan_all ''linux'' ''host'' (probe_output ''MemTotal: 2097152 kB'')
      (Inr ([] :: gpu list)) (Inr ([] :: unit list)) (Inr ([] :: unit list)) (Inr ([] :: unit list))
     = Inr \<lparr>platform = ''linux'', hostname = ''host'',
            cpu = \<lparr>cpu_model = ''Unknown'', cores = 0, threads = 0\<rparr>,
            memory = \<lparr>total_gb = 2\<rparr>, gpus = [], storage = [], network = [], ssh_keys = []\<rparr>"
proof -
  have c: "scan_cpu ''linux'' (probe_output ''MemTotal: 2097152 kB'')
             = Inr \<lparr>cpu_model = ''Unknown'', cores = 0, threads = 0\<rparr>"
    by (simp add: scan_cpu_def cpu_line_def cpu_line_body_def probe_output_def run_command_def
        text_defs exn_defs truthy_def)
  have m: "scan_memory ''linux'' (probe_output ''MemTotal: 2097152 kB'') = Inr \<lparr>total_gb = 2\<rparr>"
    by (simp add: scan_memory_def probe_output_def run_command_def py_int_def round_div_def
        text_defs exn_defs)
  show ?thesis
    using c m
      scan_all_snapshot_iff [of "''linux''" "''host''" "probe_output ''MemTotal: 2097152 kB''"
        "Inr ([] :: gpu list)" "Inr ([] :: unit list)" "Inr ([] :: unit list)" "Inr ([] :: unit list)"
        "\<lparr>platform = ''linux'', hostname = ''host'',
          cpu = \<lparr>cpu_model = ''Unknown'', cores = 0, threads = 0\<rparr>,
          memory = \<lparr>total_gb = 2\<rparr>, gpus = [], storage = [], network = [], ssh_keys = []\<rparr>"]
    by simp
qed

subsection \<open>The GPU merge\<close>

lemma contains_refl: "contains s s"
  by (cases s) (auto simp: startswith_def)

lemma lspci_line_inv:
  assumes "list_all (\<lambda>g. source g = Some ''lspci'') added"
      and "distinct (map model (filter is_amd added))"
  shows "\<exists>added'. lspci_line (gs @ added) line = gs @ added'
           \<and> list_all (\<lambda>g. source g = Some ''lspci'') added'
           \<and> distinct (map model (filter is_amd added'))"
proof -
  have amd: "contains ''AMD'' ''AMD''" by (rule contains_refl)
  have fresh: "m \<notin> model ` set (filter is_amd added)"
    if no: "\<not> list_ex (overlaps_amd m) (gs @ added)" for m
  proof
    assume "m \<in> model ` set (filter is_amd added)"
    then obtain g where g: "g \<in> set added" "is_amd g" "model g = m" by auto
    then have "overlaps_amd m g"
      using amd contains_refl by (simp add: overlaps_amd_def is_amd_def)
    with g(1) no show False by (auto simp: list_ex_iff)
  qed
  show ?thesis
    using assms fresh
    by (auto simp: lspci_line_def Let_def lspci_entry_def is_amd_def)
qed

lemma foldl_lspci_inv:
  assumes "list_all (\<lambda>g. source g = Some ''lspci'') added"
      and "distinct (map model (filter is_amd added))"
  shows "\<exists>added'. foldl lspci_line (gs @ added) lines = gs @ added'
           \<and> list_all (\<lambda>g. source g = Some ''lspci'') added'
           \<and> distinct (map model (filter is_amd added'))"
  using assms
proof (induction lines arbitrary: added)
  case Nil
  then show ?case by auto
next
  case (Cons l ls)
  from lspci_line_inv[OF Cons.prems, of gs l] obtain a1 where
    a1: "lspci_line (gs @ added) l = gs @ a1" "list_all (\<lambda>g. source g = Some ''lspci'') a1"
      "distinct (map model (filter is_amd a1))" by blast
  from Cons.IH[OF a1(2,3)] a1(1) show ?case by simp
qed

text \<open>
  Claim C5, as stated: after the merge there is at most one record for each pair of vendor
  and model.  On a host with two identical NVIDIA cards the vendor tool lists both, and
  both records stay: the merge compares nothing but bus-listing AMD entries.
\<close>

theorem two_identical_cards_both_kept:
  "bind_exn (gpus_nvidia nvidia_smi_only two_a100 []) (gpus_lspci ''linux'' two_a100) =
     Inr [\<lparr>vendor = ''NVIDIA'', index = Some 0, model = ''NVIDIA A100'', vram_mb = Some 40960,
           pcie_bus = Some ''00000000:01:00.0'', uuid = Some ''GPU-aaaa'', source = None\<rparr>,
          \<lparr>vendor = ''NVIDIA'', index = Some 1, model = ''NVIDIA A100'', vram_mb = Some 40960,
           pcie_bus = Some ''00000000:02:00.0'', uuid = Some ''GPU-bbbb'', source = None\<rparr>]
   \<and> \<not> distinct (map vendor_model
         [\<lparr>vendor = ''NVIDIA'', index = Some 0, model = ''NVIDIA A100'', vram_mb = Some 40960,
           pcie_bus = Some ''00000000:01:00.0'', uuid = Some ''GPU-aaaa'', source = None\<rparr>,
          \<lparr>vendor = ''NVIDIA'', index = Some 1, model = ''NVIDIA A100'', vram_mb = Some 40960,
           pcie_bus = Some ''00000000:02:00.0'', uuid = Some ''GPU-bbbb'', source = None\<rparr>])"
  by (simp add: gpus_nvidia_def gpus_lspci_def nvidia_line_def nvidia_smi_only_def two_a100_def
      run_command_def py_int_def isdigit_def is_amd_def lspci_line_def display_line_def
      vendor_model_def text_defs exn_defs)

text \<open>
  Claim C5, amended.  The bus-listing block runs only on Linux and only when no record of
  vendor AMD is present: otherwise it adds nothing, so a vendor tool's AMD records take
  precedence.  When it runs it only appends; an AMD line is dropped exactly when its model
  string is contained in the model string of a record already present whose vendor
  contains \<open>AMD\<close> (containment in this one direction, not equality); every record it adds
  carries the source tag \<open>lspci\<close>; and the AMD records it adds have pairwise distinct model
  strings.
\<close>

theorem lspci_fallback_merge:
  assumes "gpus_lspci plat run gs = Inr out"
  shows "(\<exists>added. out = gs @ added
            \<and> list_all (\<lambda>g. source g = Some ''lspci'') added
            \<and> distinct (map model (filter is_amd added))
            \<and> (plat \<noteq> ''linux'' \<or> list_ex is_amd gs \<longrightarrow> added = []))
       \<and> (display_line line \<and> amd_line line \<longrightarrow>
            lspci_line gs line =
              (if list_ex (overlaps_amd (model_or ''AMD GPU'' line)) gs then gs
               else gs @ [lspci_entry ''AMD'' (model_or ''AMD GPU'' line)]))"
proof -
  have line: "display_line line \<and> amd_line line \<longrightarrow>
            lspci_line gs line =
              (if list_ex (overlaps_amd (model_or ''AMD GPU'' line)) gs then gs
               else gs @ [lspci_entry ''AMD'' (model_or ''AMD GPU'' line)])"
    by (simp add: lspci_line_def Let_def)
  have block: "\<exists>added. out = gs @ added
            \<and> list_all (\<lambda>g. source g = Some ''lspci'') added
            \<and> distinct (map model (filter is_amd added))
            \<and> (plat \<noteq> ''linux'' \<or> list_ex is_amd gs \<longrightarrow> added = [])"
  proof (cases "plat = ''linux'' \<and> \<not> list_ex is_amd gs")
    case True
    then obtain lspci where "run_command run (Argv [''lspci'', ''-nn'']) = Inr lspci"
        and out: "out = foldl lspci_line gs (split_on CHR 0x0A lspci)"
      using assms by (auto simp: gpus_lspci_def bind_exn_def split: sum.splits)
    from foldl_lspci_inv[of "[]" gs "split_on CHR 0x0A lspci"] out True
    show ?thesis by auto
  next
    case False
    then have "out = gs" using assms by (auto simp: gpus_lspci_def)
    with False show ?thesis by auto
  qed
  from block line show ?thesis by blast
qed

theorem lspci_fallback_merge_witness:
  "gpus_lspci ''linux'' radeon_listing [] =
     Inr [lspci_entry ''AMD'' ''Radeon Pro'', lspci_entry ''Intel'' ''Intel'']
   \<and> distinct (map model (filter is_amd
        [lspci_entry ''AMD'' ''Radeon Pro'', lspci_entry ''Intel'' ''Intel'']))"
proof -
  have run: "gpus_lspci ''linux'' radeon_listing [] =
     Inr [lspci_entry ''AMD'' ''Radeon Pro'', lspci_entry ''Intel'' ''Intel'']"
    by (simp add: gpus_lspci_def radeon_listing_def probe_output_def run_command_def
        lspci_line_def display_line_def amd_line_def model_or_def after_colon_def
        overlaps_amd_def lspci_entry_def text_defs exn_defs)
  from lspci_fallback_merge[OF run] show ?thesis using run by auto
qed

section \<open>Properties of the update operation\<close>

subsection \<open>Stripping\<close>

lemma dropWhile_all: "list_all P s \<Longrightarrow> dropWhile P s = []"
  by (induction s) auto

lemma strip_all_space: "list_all isspace s \<Longrightarrow> strip s = []"
  by (simp add: strip_def dropWhile_all)

lemma strip_surrounded:
  assumes "list_all isspace pre" and "list_all isspace post"
  shows "strip (pre @ doc @ post) = strip doc"
proof -
  have pre: "dropWhile isspace (pre @ doc @ post) = dropWhile isspace (doc @ post)"
    using assms(1) by (simp add: dropWhile_append2 list_all_iff)
  show ?thesis
  proof (cases "list_all isspace doc")
    case True
    then have "list_all isspace (doc @ post)" using assms(2) by simp
    then have a: "dropWhile isspace (doc @ post) = []" by (rule dropWhile_all)
    have b: "dropWhile isspace doc = []" using True by (rule dropWhile_all)
    show ?thesis by (simp only: strip_def pre a b)
  next
    case False
    then obtain x where "x \<in> set doc" "\<not> isspace x" by (auto simp: list_all_iff)
    then have mid: "dropWhile isspace (doc @ post) = dropWhile isspace doc @ post"
      by (rule dropWhile_append1)
    have e: "dropWhile isspace (rev post @ rev (dropWhile isspace doc))
        = dropWhile isspace (rev (dropWhile isspace doc))"
      by (rule dropWhile_append2) (use assms(2) in \<open>simp add: list_all_iff\<close>)
    show ?thesis by (simp only: strip_def pre mid rev_append e)
  qed
qed

lemma loads_Nil: "loads [] = JSONDecodeError"
  by (simp add: loads_def skip_ws_def parse_value.simps)

subsection \<open>The two ways \<open>main\<close> ends on a document it accepts\<close>

lemma read_current_warnings:
  "read_current fs = Some (old_json, warnings) \<Longrightarrow> Updated \<notin> set warnings"
  by (auto simp: read_current_def split: option.splits result.splits)

lemma main_no_diff:
  assumes "loads (strip stdin) = Ok new_json" and "read_current fs = Some (old_json, warnings)"
    and "diff_lines_of old_json new_json = []"
  shows "main stdin now fs =
     Some \<lparr>exit_status = 0, printed = warnings @ [No_changes_detected], effects = [],
           files_after = fs\<rparr>"
proof -
  have "strip stdin \<noteq> []" using assms(1) loads_Nil by auto
  then show ?thesis using assms by (simp add: main_def Let_def)
qed

lemma main_diff:
  assumes "loads (strip stdin) = Ok new_json" and "read_current fs = Some (old_json, warnings)"
    and "diff_lines_of old_json new_json \<noteq> []"
  shows "\<exists>out. main stdin now fs = Some out
     \<and> effects out = [Mkdir_changelog_parent,
           Append_changelog (changelog_entry (strftime now) (diff_lines_of old_json new_json)),
           Write_context (dumps False new_json @ [CHR 0x0A])]
     \<and> context_file (files_after out) = Some (dumps False new_json @ [CHR 0x0A])"
proof -
  have "strip stdin \<noteq> []" using assms(1) loads_Nil by auto
  then show ?thesis using assms by (simp add: main_def Let_def)
qed

subsection \<open>Rejected input\<close>

text \<open>
  Claim C4.  The text the operation validates is the stripped input.  When \<open>json.loads\<close>
  raises \<open>JSONDecodeError\<close> on it, the operation prints one message, on the error channel,
  exits with status 1, and has no effect: the document store and the audit log are the files
  it started from.
\<close>

theorem malformed_input_rejected:
  assumes "loads (strip stdin) = JSONDecodeError"
  shows "\<exists>m. main stdin now fs =
           Some \<lparr>exit_status = 1, printed = [m], effects = [], files_after = fs\<rparr>
         \<and> on_stderr m"
  using assms by (auto simp: main_def Let_def on_stderr_def)

theorem malformed_input_rejected_witness:
  "main ''not json'' new_year two_keys =
     Some \<lparr>exit_status = 1, printed = [Error_invalid_json], effects = [], files_after = two_keys\<rparr>"
proof -
  have bad: "loads (strip ''not json'') = JSONDecodeError"
    by code_simp
  have nonempty: "strip ''not json'' \<noteq> []"
    by code_simp
  from malformed_input_rejected [OF bad, of new_year two_keys] nonempty bad
  show ?thesis by (auto simp: main_def Let_def)
qed

text \<open>
  Claim C10.  An input of whitespace only (the empty input too) is refused with the message
  \<open>No content provided\<close> on the error channel and status 1, whatever \<open>json.loads\<close> would say,
  and nothing is touched.  A text that \<open>json.loads\<close> accepts, with any whitespace that
  \<open>str.strip\<close> removes put before and after it, is handled as the text alone is, and is not
  refused.
\<close>

theorem whitespace_input:
  "(list_all isspace stdin \<longrightarrow>
      main stdin now fs =
        Some \<lparr>exit_status = 1, printed = [Error_no_content], effects = [], files_after = fs\<rparr>
      \<and> on_stderr Error_no_content)
   \<and> (list_all isspace pre \<and> list_all isspace post \<and> strip doc = doc \<and> loads doc = Ok j \<longrightarrow>
      main (pre @ doc @ post) now fs = main doc now fs
      \<and> (\<forall>out. main doc now fs = Some out \<longrightarrow>
            exit_status out = 0 \<and> Error_no_content \<notin> set (printed out)
            \<and> Error_invalid_json \<notin> set (printed out)))"
proof (intro conjI impI)
  assume "list_all isspace stdin"
  then show "main stdin now fs =
      Some \<lparr>exit_status = 1, printed = [Error_no_content], effects = [], files_after = fs\<rparr>"
    by (simp add: main_def strip_all_space)
next
  show "on_stderr Error_no_content" by (simp add: on_stderr_def)
next
  assume a: "list_all isspace pre \<and> list_all isspace post \<and> strip doc = doc \<and> loads doc = Ok j"
  then show "main (pre @ doc @ post) now fs = main doc now fs"
    by (simp add: main_def strip_surrounded)
next
  assume a: "list_all isspace pre \<and> list_all isspace post \<and> strip doc = doc \<and> loads doc = Ok j"
  then have ne: "doc \<noteq> []" using loads_Nil by auto
  show "\<forall>out. main doc now fs = Some out \<longrightarrow>
            exit_status out = 0 \<and> Error_no_content \<notin> set (printed out)
            \<and> Error_invalid_json \<notin> set (printed out)"
    using a ne
    by (auto simp: main_def Let_def read_current_def
        split: option.splits result.splits if_splits)
qed

theorem whitespace_input_witness:
  "main [CHR 0x0C, CHR 0x0A] new_year two_keys =
     Some \<lparr>exit_status = 1, printed = [Error_no_content], effects = [], files_after = two_keys\<rparr>
   \<and> main ([CHR 0x0C, CHR '' ''] @ ''{\"a\":1}'' @ [CHR 0x0A]) new_year no_files
       = main ''{\"a\":1}'' new_year no_files
   \<and> map_option exit_status (main ''{\"a\":1}'' new_year no_files) = Some 0"
proof -
  have ws: "list_all isspace [CHR 0x0C, CHR 0x0A]" "list_all isspace [CHR 0x0C, CHR '' '']"
    "list_all isspace [CHR 0x0A]"
    by (simp_all add: isspace_def)
  have bare: "strip ''{\"a\":1}'' = ''{\"a\":1}''" by code_simp
  have ok: "loads ''{\"a\":1}'' = Ok (JObj [(''a'', JInt 1)])" by code_simp
  have run: "map_option exit_status (main ''{\"a\":1}'' new_year no_files) = Some 0"
    by code_simp
  from whitespace_input [of "[CHR 0x0C, CHR 0x0A]" new_year two_keys
      "[CHR 0x0C, CHR '' '']" "[CHR 0x0A]" "''{\"a\":1}''" "JObj [(''a'', JInt 1)]"]
    whitespace_input [of "[CHR 0x0C, CHR 0x0A]" new_year no_files
      "[CHR 0x0C, CHR '' '']" "[CHR 0x0A]" "''{\"a\":1}''" "JObj [(''a'', JInt 1)]"]
    ws bare ok run
  show ?thesis by simp
qed

subsection \<open>The order of the two writes\<close>

text \<open>
  Claim C3.  When the new text parses and the current document is read, the operation
  returns.  With an empty diff it has no effect at all: nothing is appended.  With a
  non-empty diff its effects are, in this order, the directory of the log, one append of
  one entry to the audit log, and then the write of the document store; the log afterwards
  is the log before with that entry after it, so nothing of it is lost.
\<close>

theorem log_appended_then_store_written:
  assumes "loads (strip stdin) = Ok new_json" and "read_current fs = Some (old_json, warnings)"
  shows "\<exists>out. main stdin now fs = Some out \<and>
     (if diff_lines_of old_json new_json = [] then
        effects out = [] \<and> files_after out = fs
      else
        effects out =
          [Mkdir_changelog_parent,
           Append_changelog (changelog_entry (strftime now) (diff_lines_of old_json new_json)),
           Write_context (dumps False new_json @ [CHR 0x0A])]
        \<and> changelog_file (files_after out) =
            Some (appended (changelog_file fs)
                    (changelog_entry (strftime now) (diff_lines_of old_json new_json)))
        \<and> (\<forall>before. changelog_file fs = Some before \<longrightarrow>
              changelog_file (files_after out) =
                Some (before @ changelog_entry (strftime now) (diff_lines_of old_json new_json)))
        \<and> context_file (files_after out) = Some (dumps False new_json @ [CHR 0x0A]))"
proof -
  have "strip stdin \<noteq> []" using assms(1) loads_Nil by auto
  then show ?thesis
    using assms by (auto simp: main_def Let_def appended_def)
qed

theorem log_appended_then_store_written_witness:
  "map_option effects (main ''{\"a\":1}'' new_year two_keys) =
     Some [Mkdir_changelog_parent,
       Append_changelog (changelog_entry (strftime new_year)
         (diff_lines_of (JObj [(''a'', JInt 1), (''b'', JInt 2)]) (JObj [(''a'', JInt 1)]))),
       Write_context (dumps False (JObj [(''a'', JInt 1)]) @ [CHR 0x0A])]
   \<and> map_option (changelog_file \<circ> files_after) (main ''{\"a\":1}'' new_year two_keys) =
     Some (Some (''earlier'' @ changelog_entry (strftime new_year)
         (diff_lines_of (JObj [(''a'', JInt 1), (''b'', JInt 2)]) (JObj [(''a'', JInt 1)]))))"
proof -
  have new: "loads (strip ''{\"a\":1}'') = Ok (JObj [(''a'', JInt 1)])" by code_simp
  have old: "read_current two_keys = Some (JObj [(''a'', JInt 1), (''b'', JInt 2)], [])"
    by code_simp
  have diff: "diff_lines_of (JObj [(''a'', JInt 1), (''b'', JInt 2)]) (JObj [(''a'', JInt 1)]) \<noteq> []"
    by code_simp
  have log: "changelog_file two_keys = Some ''earlier''" by (simp add: two_keys_def)
  from log_appended_then_store_written [OF new old, of new_year] diff log
  show ?thesis by auto
qed

subsection \<open>The shape of a log entry\<close>

text \<open>
  Claim C9.  An entry is to hold a unified diff whose \<open>---\<close>, \<open>+++\<close> and \<open>@@\<close> lines each
  stand on a line of their own.  The script splits the two texts with \<open>keepends=True\<close>, so
  the content lines carry their newline, and asks for \<open>lineterm=''\<close>, so the three header
  lines carry none; joined with \<open>"".join\<close>, the headers and the first content line run
  together on one line.  With no store yet and the input \<open>{"a":1}\<close>:
\<close>

theorem changelog_headers_run_together:
  "map_option effects (main ''{\"a\":1}'' new_year no_files) =
   Some [Mkdir_changelog_parent,
     Append_changelog (CHR 0x0A # separator @ [CHR 0x0A] @ ''# 2026-01-05 09:03:07'' @ [CHR 0x0A]
        @ separator @ [CHR 0x0A]
        @ ''--- claude_context.json.old+++ claude_context.json.new@@ -1 +1,3 @@-{}'' @ [CHR 0x0A]
        @ ''+{'' @ [CHR 0x0A] @ ''+  \"a\": 1'' @ [CHR 0x0A] @ ''+}'' @ [CHR 0x0A, CHR 0x0A]),
     Write_context (''{'' @ [CHR 0x0A] @ ''  \"a\": 1'' @ [CHR 0x0A] @ ''}'' @ [CHR 0x0A])]"
  by code_simp

subsection \<open>A document that changes nothing\<close>

text \<open>
  Claim C1.  Both documents are put in canonical form (\<open>formatted\<close>: keys sorted at every
  depth, an indent of two, a final newline) and the two texts are compared.  When the texts
  are equal the operation does nothing: it returns with status 0 and the message
  \<open>No changes detected\<close>, never \<open>Updated\<close>, it has no effect, and the store and the log are
  the files it started from.  Two documents with the same key/value content, whatever the
  order of their keys, have the same canonical text.  And a second submission of the same
  input, at any later time, to the files the first one left, has no effect and answers
  \<open>No changes detected\<close>: what was written reads back as the document it was written from.
\<close>

theorem unchanged_document_is_noop:
  assumes "loads (strip stdin) = Ok new_json" and "read_current fs = Some (old_json, warnings)"
  shows "(formatted old_json = formatted new_json \<longrightarrow>
            main stdin now fs =
              Some \<lparr>exit_status = 0, printed = warnings @ [No_changes_detected], effects = [],
                    files_after = fs\<rparr>
            \<and> Updated \<notin> set (warnings @ [No_changes_detected]))
       \<and> (same_content old_json new_json \<longrightarrow> formatted old_json = formatted new_json)
       \<and> (\<exists>out again. main stdin now fs = Some out
            \<and> main stdin later (files_after out) = Some again
            \<and> effects again = [] \<and> files_after again = files_after out
            \<and> No_changes_detected \<in> set (printed again) \<and> Updated \<notin> set (printed again))"
proof (intro conjI impI)
  assume "formatted old_json = formatted new_json"
  then have "diff_lines_of old_json new_json = []" by (rule diff_lines_of_same)
  with assms show "main stdin now fs =
      Some \<lparr>exit_status = 0, printed = warnings @ [No_changes_detected], effects = [],
            files_after = fs\<rparr>"
    by (rule main_no_diff)
next
  show "Updated \<notin> set (warnings @ [No_changes_detected])"
    using read_current_warnings [OF assms(2)] by simp
next
  assume "same_content old_json new_json"
  with read_current_distinct_keys [OF assms(2)] loads_distinct_keys [OF assms(1)]
  show "formatted old_json = formatted new_json" by (rule formatted_same_content)
next
  show "\<exists>out again. main stdin now fs = Some out
            \<and> main stdin later (files_after out) = Some again
            \<and> effects again = [] \<and> files_after again = files_after out
            \<and> No_changes_detected \<in> set (printed again) \<and> Updated \<notin> set (printed again)"
  proof (cases "diff_lines_of old_json new_json = []")
    case True
    from main_no_diff [OF assms True] read_current_warnings [OF assms(2)]
    show ?thesis by simp
  next
    case False
    from main_diff [OF assms False, of now] obtain out where out: "main stdin now fs = Some out"
      and stored: "context_file (files_after out) = Some (dumps False new_json @ [CHR 0x0A])"
      by blast
    have "read_current (files_after out) = Some (new_json, [])"
      using loads_distinct_keys [OF assms(1)] stored by (simp add: read_current_def loads_dumps)
    moreover have "diff_lines_of new_json new_json = []" by (simp add: diff_lines_of_same)
    ultimately have "main stdin later (files_after out) =
        Some \<lparr>exit_status = 0, printed = [] @ [No_changes_detected], effects = [],
              files_after = files_after out\<rparr>"
      by (rule main_no_diff [OF assms(1)])
    with out show ?thesis by simp
  qed
qed

theorem unchanged_document_is_noop_witness:
  "main b_before_a new_year two_keys =
     Some \<lparr>exit_status = 0, printed = [No_changes_detected], effects = [], files_after = two_keys\<rparr>
   \<and> (\<exists>out again. main ''{\"a\":1}'' new_year no_files = Some out
        \<and> main ''{\"a\":1}'' a_minute_later (files_after out) = Some again
        \<and> effects again = [] \<and> files_after again = files_after out
        \<and> No_changes_detected \<in> set (printed again) \<and> Updated \<notin> set (printed again))"
proof -
  have new: "loads (strip b_before_a) = Ok (JObj [(''b'', JInt 2), (''a'', JInt 1)])"
    by code_simp
  have old: "read_current two_keys = Some (JObj [(''a'', JInt 1), (''b'', JInt 2)], [])"
    by code_simp
  have same: "same_content (JObj [(''a'', JInt 1), (''b'', JInt 2)]) (JObj [(''b'', JInt 2), (''a'', JInt 1)])"
    by code_simp
  have new': "loads (strip ''{\"a\":1}'') = Ok (JObj [(''a'', JInt 1)])" by code_simp
  have old': "read_current no_files = Some (JObj [], [])" by code_simp
  from unchanged_document_is_noop [OF new old, of new_year a_minute_later] same
    unchanged_document_is_noop [OF new' old', of new_year a_minute_later]
  show ?thesis by simp
qed

subsection \<open>The stored document read back\<close>

text \<open>
  Claim C8.  When the operation writes the store, the text it writes is the store afterwards,
  \<open>json.loads\<close> reads it, and the canonical form of what it reads is the canonical form of the
  document that was submitted.
\<close>

theorem persisted_document_round_trip:
  assumes "main stdin now fs = Some out" and "Write_context stored \<in> set (effects out)"
  shows "context_file (files_after out) = Some stored
       \<and> (\<exists>new_json j. loads (strip stdin) = Ok new_json \<and> loads stored = Ok j
             \<and> formatted j = formatted new_json)"
proof -
  from assms obtain new_json where new: "loads (strip stdin) = Ok new_json"
    and st: "stored = dumps False new_json @ [CHR 0x0A]"
    and cf: "context_file (files_after out) = Some stored"
    by (auto simp: main_def Let_def split: if_splits result.splits option.splits)
  have "loads stored = Ok new_json"
    unfolding st using loads_distinct_keys [OF new] by (rule loads_dumps)
  with new cf show ?thesis by simp
qed

theorem persisted_document_round_trip_witness:
  "context_file (files_after (the (main b_before_a new_year no_files)))
     = Some (''{'' @ [CHR 0x0A] @ ''  \"b\": 2,'' @ [CHR 0x0A] @ ''  \"a\": 1'' @ [CHR 0x0A] @ ''}'' @ [CHR 0x0A])
   \<and> (\<exists>new_json j. loads (strip b_before_a) = Ok new_json
         \<and> loads (''{'' @ [CHR 0x0A] @ ''  \"b\": 2,'' @ [CHR 0x0A] @ ''  \"a\": 1'' @ [CHR 0x0A] @ ''}'' @ [CHR 0x0A]) = Ok j
         \<and> formatted j = formatted new_json)"
proof -
  have run: "main b_before_a new_year no_files = Some (the (main b_before_a new_year no_files))"
    by code_simp
  have written: "Write_context (''{'' @ [CHR 0x0A] @ ''  \"b\": 2,'' @ [CHR 0x0A] @ ''  \"a\": 1'' @ [CHR 0x0A] @ ''}'' @ [CHR 0x0A])
      \<in> set (effects (the (main b_before_a new_year no_files)))"
    by code_simp
  from persisted_document_round_trip [OF run written] show ?thesis .
qed

end
